theory Spec2Isabelle
  imports Complex_Main "HOL-Library.Word" "HOL-Library.Sublist" "HOL-Library.AList"
begin

section \<open>Strings of the source language\<close>

text \<open>
  A JavaScript string is a sequence of UTF-16 code units; \<open>length\<close>, \<open>slice\<close>,
  \<open>indexOf\<close>, \<open>charCodeAt\<close> and the regular expressions of the source (none has the
  \<open>u\<close> flag) all work on code units. A string is modelled as the list of its code
  units, each a natural number.
\<close>

type_synonym jstr = "nat list"

definition lit :: "string \<Rightarrow> jstr" where
  "lit s = map of_char s"

text \<open>The characters \<open>String.prototype.trim\<close> removes and the class \<open>\s\<close> matches:
  WhiteSpace and LineTerminator of ECMAScript.\<close>

definition isWs :: "nat \<Rightarrow> bool" where
  "isWs c = (c = 9 \<or> c = 10 \<or> c = 11 \<or> c = 12 \<or> c = 13 \<or> c = 32 \<or> c = 160 \<or> c = 5760
     \<or> (8192 \<le> c \<and> c \<le> 8202) \<or> c = 8232 \<or> c = 8233 \<or> c = 8239 \<or> c = 8287
     \<or> c = 12288 \<or> c = 65279)"

definition dropWhileEnd :: "('a \<Rightarrow> bool) \<Rightarrow> 'a list \<Rightarrow> 'a list" where
  "dropWhileEnd P xs = rev (dropWhile P (rev xs))"

definition trim :: "jstr \<Rightarrow> jstr" where
  "trim s = dropWhileEnd isWs (dropWhile isWs s)"

text \<open>\<open>Array.prototype.join\<close>.\<close>

fun join :: "jstr \<Rightarrow> jstr list \<Rightarrow> jstr" where
  "join sep [] = []"
| "join sep [x] = x"
| "join sep (x # y # ys) = x @ sep @ join sep (y # ys)"

text \<open>\<open>s.split("\n")\<close>: the empty string gives one empty line.\<close>

fun splitNL :: "jstr \<Rightarrow> jstr list" where
  "splitNL [] = [[]]"
| "splitNL (c # cs) =
     (if c = 10 then [] # splitNL cs
      else (case splitNL cs of [] \<Rightarrow> [[c]] | l # ls \<Rightarrow> (c # l) # ls))"

text \<open>\<open>indexOf\<close> and \<open>lastIndexOf\<close> of a substring, \<open>-1\<close> when it does not occur.\<close>

fun indexOf :: "jstr \<Rightarrow> jstr \<Rightarrow> int" where
  "indexOf pat [] = (if pat = [] then 0 else -1)"
| "indexOf pat (c # cs) =
     (if prefix pat (c # cs) then 0
      else (let r = indexOf pat cs in if r < 0 then -1 else r + 1))"

fun lastIndexOf :: "jstr \<Rightarrow> jstr \<Rightarrow> int" where
  "lastIndexOf pat [] = (if pat = [] then 0 else -1)"
| "lastIndexOf pat (c # cs) =
     (let r = lastIndexOf pat cs in
      if 0 \<le> r then r + 1 else if prefix pat (c # cs) then 0 else -1)"

text \<open>\<open>s.slice(a, b)\<close>: a negative index counts from the end, both are clamped to
  the string, and an empty range gives the empty string.\<close>

definition slice :: "int \<Rightarrow> int \<Rightarrow> jstr \<Rightarrow> jstr" where
  "slice a b s =
     (let n = int (length s);
          from = (if a < 0 then max (n + a) 0 else min a n);
          to = (if b < 0 then max (n + b) 0 else min b n)
      in take (nat (to - from)) (drop (nat from) s))"

definition sliceFrom :: "int \<Rightarrow> jstr \<Rightarrow> jstr" where
  "sliceFrom a s = slice a (int (length s)) s"

section \<open>Data model\<close>

record OneDriveChunkDocument =
  chunk_id :: "jstr option"
  parent_id :: "jstr option"
  title :: "jstr option"
  chunk :: "jstr option"

text \<open>
  Scores and thresholds are JavaScript numbers, IEEE doubles: their subtraction rounds
  and a comparison with NaN is false. The model does not fix that arithmetic. The
  type \<open>'n\<close> of numbers is a parameter; the gate uses its subtraction, its comparison
  and its zero, of the classes \<open>minus\<close>, \<open>ord\<close> and \<open>zero\<close>, which assume nothing of these
  operations, and the numbers that the literals \<open>0.12\<close> and \<open>0.01\<close> denote, which it
  takes in a record. What is proved of the gate holds for every such type, and so
  for the doubles with their rounding.
\<close>

record 'n numberLiterals =
  literal_0_12 :: 'n
  literal_0_01 :: 'n

text \<open>A search result: the document and its optional score.\<close>

record 'n result =
  document :: OneDriveChunkDocument
  score :: "'n option"

text \<open>The options after the constructor has merged the defaults. The two thresholds
  stay optional, as \<open>shouldClarify\<close> reads them with a fallback of its own.\<close>

record 'n options =
  kNearestNeighborsCount :: int
  topPerVariant :: int
  maxTotalAfterFusion :: int
  maxPerParent :: int
  minTopScore :: "'n option"
  minScoreGap :: "'n option"
  maxContextTokens :: int

record parentGroup =
  gtitle :: "jstr option"
  chunks :: "jstr list"

datatype error = EmbeddingFailed | ProviderError

datatype 'v call = EmbedCall jstr | SearchCall jstr 'v int int

section \<open>Diversity selection\<close>

text \<open>\<open>it.document.parent_id ?? it.document.chunk_id ?? "_"\<close>\<close>

definition parentKey :: "'n result \<Rightarrow> jstr" where
  "parentKey it =
     (case parent_id (document it) of
        Some p \<Rightarrow> p
      | None \<Rightarrow> (case chunk_id (document it) of Some c \<Rightarrow> c | None \<Rightarrow> lit ''_''))"

text \<open>The loop of \<open>limitByParentAndTotal\<close>: the state is the map \<open>perParent\<close> and
  the list \<open>out\<close>; \<open>break\<close> returns \<open>out\<close> at once.\<close>

fun limitLoop ::
  "int \<Rightarrow> int \<Rightarrow> (jstr \<rightharpoonup> nat) \<Rightarrow> 'n result list \<Rightarrow> 'n result list \<Rightarrow> 'n result list" where
  "limitLoop mpp mt perParent out [] = out"
| "limitLoop mpp mt perParent out (it # items) =
     (let parent = parentKey it;
          n = (case perParent parent of None \<Rightarrow> 0 | Some k \<Rightarrow> k)
      in if int n < mpp then
           (let out' = out @ [it];
                perParent' = perParent(parent \<mapsto> n + 1)
            in if mt \<le> int (length out') then out'
               else limitLoop mpp mt perParent' out' items)
         else limitLoop mpp mt perParent out items)"

definition limitByParentAndTotal :: "'n result list \<Rightarrow> int \<Rightarrow> int \<Rightarrow> 'n result list" where
  "limitByParentAndTotal items mpp mt = limitLoop mpp mt Map.empty [] items"

section \<open>Confidence gate\<close>

text \<open>\<open>items[i]?.score ?? 0\<close>\<close>

definition scoreAt :: "('n::zero) result list \<Rightarrow> nat \<Rightarrow> 'n" where
  "scoreAt items i =
     (if i < length items then (case score (items ! i) of None \<Rightarrow> 0 | Some s \<Rightarrow> s) else 0)"

text \<open>\<open>this.options.minTopScore ?? 0.12\<close> and \<open>this.options.minScoreGap ?? 0.01\<close>\<close>

definition minTopScoreOr :: "'n numberLiterals \<Rightarrow> 'n options \<Rightarrow> 'n" where
  "minTopScoreOr lits opts =
     (case minTopScore opts of None \<Rightarrow> literal_0_12 lits | Some m \<Rightarrow> m)"

definition minScoreGapOr :: "'n numberLiterals \<Rightarrow> 'n options \<Rightarrow> 'n" where
  "minScoreGapOr lits opts =
     (case minScoreGap opts of None \<Rightarrow> literal_0_01 lits | Some g \<Rightarrow> g)"

definition shouldClarify ::
  "'n numberLiterals \<Rightarrow> ('n::{minus,ord,zero}) options \<Rightarrow> 'n result list \<Rightarrow> bool" where
  "shouldClarify lits opts items =
     (if items = [] then True
      else if 3 \<le> length items then False
      else
        (let s1 = scoreAt items 0;
             s2 = scoreAt items 1;
             lowTop = (s1 < minTopScoreOr lits opts);
             smallGap = (s1 - s2 < minScoreGapOr lits opts)
         in lowTop \<and> smallGap))"

text \<open>The gate as the specification words it, on the list of the candidates' scores:
  decline when there is no candidate, or when there are fewer than three and the top
  score is below \<open>minTop\<close> and its margin over the runner-up (0 when there is none) is
  below \<open>minGap\<close>. The subtraction and the comparison are those of the numbers.\<close>

definition shouldDecline_spec :: "'n \<Rightarrow> 'n \<Rightarrow> ('n::{minus,ord,zero}) list \<Rightarrow> bool" where
  "shouldDecline_spec minTop minGap scores =
     (case scores of
        [] \<Rightarrow> True
      | [topScore] \<Rightarrow> topScore < minTop \<and> topScore - 0 < minGap
      | [topScore, secondScore] \<Rightarrow> topScore < minTop \<and> topScore - secondScore < minGap
      | _ \<Rightarrow> False)"

section \<open>Budget stitching\<close>

text \<open>\<open>Math.ceil((text?.length ?? 0) / 4)\<close>\<close>

definition estimateTokens :: "jstr \<Rightarrow> int" where
  "estimateTokens text = int ((length text + 3) div 4)"

text \<open>The class \<open>[ \t\r\n]\<close> of the trailing-blank regular expression.\<close>

definition isBlank :: "nat \<Rightarrow> bool" where
  "isBlank c = (c = 32 \<or> c = 9 \<or> c = 13 \<or> c = 10)"

text \<open>The ellipsis U+2026, one code unit.\<close>

definition ellipsis :: jstr where
  "ellipsis = [8230]"

text \<open>\<open>Math.max(slice.lastIndexOf("\n"), slice.lastIndexOf(" "), slice.lastIndexOf("\t"))\<close>\<close>

definition lastBreakIndex :: "jstr \<Rightarrow> int" where
  "lastBreakIndex sl = max (max (lastIndexOf [10] sl) (lastIndexOf [32] sl)) (lastIndexOf [9] sl)"

text \<open>
  \<open>safeTrimToChars\<close>. The test \<open>lastBreak > maxChars * 0.6\<close> compares an integer
  with a product in double precision. For an integer \<open>maxChars\<close> the product is the
  integer \<open>3 * maxChars / 5\<close> when 5 divides \<open>maxChars\<close>, and otherwise lies within
  rounding of a number at least 1/5 from every integer, so the test is the exact one
  on the reals.
\<close>

definition safeTrimToChars :: "jstr \<Rightarrow> int \<Rightarrow> jstr" where
  "safeTrimToChars s maxChars =
     (if int (length s) \<le> maxChars then s
      else
        (let sl = slice 0 (max 0 (maxChars - 1)) s;
             lastBreak = lastBreakIndex sl;
             cut = (if real_of_int lastBreak > real_of_int maxChars * (6 / 10)
                    then slice 0 lastBreak sl else sl)
         in dropWhileEnd isBlank cut @ ellipsis))"

text \<open>
  The cut the specification describes for a text \<open>s\<close> longer than \<open>maxChars\<close>: the
  limit is \<open>maxChars - 1\<close> characters; the cut is at the last newline, space or tab
  before the limit when that position is past 60% of \<open>maxChars\<close>, and at the limit when
  no newline, space or tab before the limit is past 60%.
\<close>

definition isBreak :: "nat \<Rightarrow> bool" where
  "isBreak c = (c = 10 \<or> c = 32 \<or> c = 9)"

definition cutPosition_spec :: "jstr \<Rightarrow> int \<Rightarrow> nat \<Rightarrow> bool" where
  "cutPosition_spec s maxChars k =
     (let limit = min (nat (maxChars - 1)) (length s) in
      (k < limit \<and> isBreak (s ! k) \<and> 3 * maxChars < 5 * int k
         \<and> (\<forall>i<limit. k < i \<longrightarrow> \<not> isBreak (s ! i)))
      \<or> (k = limit \<and> (\<forall>i<limit. isBreak (s ! i) \<longrightarrow> 5 * int i \<le> 3 * maxChars)))"

text \<open>For the proofs: \<open>r\<close> is the last index of \<open>xs\<close> whose character satisfies \<open>P\<close>,
  or \<open>-1\<close> when there is none.\<close>

definition lastAt :: "(nat \<Rightarrow> bool) \<Rightarrow> jstr \<Rightarrow> int \<Rightarrow> bool" where
  "lastAt P xs r =
     ((r = - 1 \<and> (\<forall>i<length xs. \<not> P (xs ! i)))
      \<or> (0 \<le> r \<and> nat r < length xs \<and> P (xs ! nat r)
          \<and> (\<forall>i<length xs. nat r < i \<longrightarrow> \<not> P (xs ! i))))"

text \<open>The block a piece that does not fit is replaced with.\<close>

definition trimPiece :: "jstr \<Rightarrow> int \<Rightarrow> jstr" where
  "trimPiece p approxChars =
     (let openIdx = indexOf (lit ''>'') p;
          closeIdx = lastIndexOf (lit ''</context>'') p
      in if openIdx \<noteq> -1 \<and> closeIdx \<noteq> -1 then
           (let head = slice 0 (openIdx + 1) p;
                body = slice (openIdx + 1) closeIdx p;
                tail = sliceFrom closeIdx p;
                trimmedBody = safeTrimToChars body approxChars
            in head @ trimmedBody @ tail)
         else safeTrimToChars p approxChars)"

text \<open>The loop of \<open>stitchWithTokenBudget\<close>, with the state \<open>out\<close> and \<open>used\<close>.\<close>

fun stitchLoop :: "int \<Rightarrow> jstr list \<Rightarrow> int \<Rightarrow> jstr list \<Rightarrow> jstr list" where
  "stitchLoop maxTokens out used [] = out"
| "stitchLoop maxTokens out used (p # pieces) =
     (let t = estimateTokens p in
      if used + t \<le> maxTokens then stitchLoop maxTokens (out @ [p]) (used + t) pieces
      else
        (let remaining = max 0 (maxTokens - used) in
         if remaining \<le> 0 then out
         else out @ [trimPiece p (remaining * 4)]))"

definition stitchWithTokenBudget :: "jstr list \<Rightarrow> int \<Rightarrow> jstr" where
  "stitchWithTokenBudget pieces maxTokens = join [10] (stitchLoop maxTokens [] 0 pieces)"

section \<open>Whitespace normalisation\<close>

text \<open>The class of the first replacement: U+200B to U+200D, U+FEFF, U+2028 and
  U+2029.\<close>

definition isZeroWidth :: "nat \<Rightarrow> bool" where
  "isZeroWidth c = ((8203 \<le> c \<and> c \<le> 8205) \<or> c = 65279 \<or> c = 8232 \<or> c = 8233)"

definition stripZeroWidth :: "jstr \<Rightarrow> jstr" where
  "stripZeroWidth s = filter (\<lambda>c. \<not> isZeroWidth c) s"

text \<open>\<open>replace(/\r\n?/g, "\n")\<close>\<close>

fun normalizeEOL :: "jstr \<Rightarrow> jstr" where
  "normalizeEOL [] = []"
| "normalizeEOL [c] = (if c = 13 then [10] else [c])"
| "normalizeEOL (c # d # cs) =
     (if c = 13 \<and> d = 10 then 10 # normalizeEOL cs
      else if c = 13 then 10 # normalizeEOL (d # cs)
      else c # normalizeEOL (d # cs))"

definition isSpTab :: "nat \<Rightarrow> bool" where
  "isSpTab c = (c = 32 \<or> c = 9)"

text \<open>\<open>replace(/[ \t]+/g, " ")\<close>: every maximal run of spaces and tabs becomes one
  space.\<close>

function collapseSpaces :: "jstr \<Rightarrow> jstr" where
  "collapseSpaces [] = []"
| "collapseSpaces (c # cs) =
     (if isSpTab c then 32 # collapseSpaces (dropWhile isSpTab cs)
      else c # collapseSpaces cs)"
  by pat_completeness auto
termination
  by (relation "measure length") (auto simp: less_Suc_eq_le length_dropWhile_le)

definition cleanLine :: "jstr \<Rightarrow> jstr" where
  "cleanLine line = trim (collapseSpaces line)"

text \<open>\<open>replace(/\n{3,}/g, "\n\n")\<close>: a maximal run of three or more newlines becomes
  two; shorter runs stay.\<close>

function collapseBlankLines :: "jstr \<Rightarrow> jstr" where
  "collapseBlankLines [] = []"
| "collapseBlankLines (c # cs) =
     (if c = 10 then
        (let run = takeWhile (\<lambda>d. d = 10) cs;
             rest = dropWhile (\<lambda>d. d = 10) cs
         in (if 2 \<le> length run then [10, 10] else 10 # run) @ collapseBlankLines rest)
      else c # collapseBlankLines cs)"
  by pat_completeness auto
termination
  by (relation "measure length") (auto simp: less_Suc_eq_le length_dropWhile_le)

definition compactWhitespace :: "jstr \<Rightarrow> jstr" where
  "compactWhitespace s =
     (if s = [] then []
      else
        (let out1 = stripZeroWidth s;
             out2 = normalizeEOL out1;
             out3 = join [10] (map cleanLine (splitNL out2));
             out4 = collapseBlankLines out3
         in trim out4))"

section \<open>Deduplication\<close>

definition hexDigit :: "nat \<Rightarrow> nat" where
  "hexDigit d = (if d < 10 then 48 + d else 87 + d)"

fun toHex :: "nat \<Rightarrow> jstr" where
  "toHex n = (if n < 16 then [hexDigit n] else toHex (n div 16) @ [hexDigit (n mod 16)])"

declare toHex.simps [simp del]

text \<open>\<open>h.toString(16)\<close> of an integer: a minus sign and the magnitude's digits.\<close>

definition toString16 :: "int \<Rightarrow> jstr" where
  "toString16 i = (if i < 0 then 45 # toHex (nat (- i)) else toHex (nat i))"

text \<open>\<open>h = (h * 31 + s.charCodeAt(i)) | 0\<close>: the sum is exact in double precision
  (below \<open>2 ^ 37\<close>) and \<open>| 0\<close> wraps it to a signed 32-bit integer.\<close>

definition hashInt :: "jstr \<Rightarrow> 32 word" where
  "hashInt s = foldl (\<lambda>h c. h * 31 + of_nat c) 0 s"

definition hashString :: "jstr \<Rightarrow> jstr" where
  "hashString s = toString16 (sint (hashInt s))"

fun dedupeLoop :: "jstr set \<Rightarrow> jstr list \<Rightarrow> jstr list \<Rightarrow> jstr list" where
  "dedupeLoop seen out [] = out"
| "dedupeLoop seen out (c # cs) =
     (let key = hashString c in
      if key \<notin> seen then dedupeLoop (insert key seen) (out @ [c]) cs
      else dedupeLoop seen out cs)"

definition dedupeByHash :: "jstr list \<Rightarrow> jstr list" where
  "dedupeByHash cs = dedupeLoop {} [] cs"

text \<open>Deduplication as the specification words it: within one group, every later
  exact repeat of a text is removed and the first occurrence of each text stays, in
  order.\<close>

fun dedupeExact_spec :: "jstr list \<Rightarrow> jstr list" where
  "dedupeExact_spec [] = []"
| "dedupeExact_spec (c # cs) = c # dedupeExact_spec (filter (\<lambda>d. d \<noteq> c) cs)"

text \<open>Deduplication by a fingerprint \<open>f\<close>, as the component design words it: the
  first occurrence of each fingerprint stays, in order.\<close>

fun dedupeByKey_spec :: "(jstr \<Rightarrow> 'k) \<Rightarrow> jstr list \<Rightarrow> jstr list" where
  "dedupeByKey_spec f [] = []"
| "dedupeByKey_spec f (c # cs) = c # dedupeByKey_spec f (filter (\<lambda>d. f d \<noteq> f c) cs)"

section \<open>Grouping, condensing and formatting\<close>

text \<open>A string or null in a condition: null, undefined and the empty string are
  false.\<close>

definition truthy :: "jstr option \<Rightarrow> bool" where
  "truthy v = (case v of None \<Rightarrow> False | Some s \<Rightarrow> s \<noteq> [])"

text \<open>The \<open>Map\<close> of \<open>groupByParent\<close> keeps its keys in the order of their first
  insertion: an association list, updated in place.\<close>

fun groupLoop ::
  "(jstr \<times> parentGroup) list \<Rightarrow> 'n result list \<Rightarrow> (jstr \<times> parentGroup) list" where
  "groupLoop m [] = m"
| "groupLoop m (it # items) =
     (let parent = parentKey it;
          g = (case map_of m parent of
                 Some g \<Rightarrow> g
               | None \<Rightarrow> \<lparr>gtitle = title (document it), chunks = []\<rparr>);
          g1 = (case chunk (document it) of
                  None \<Rightarrow> g
                | Some c \<Rightarrow> if c \<noteq> [] then g\<lparr>chunks := chunks g @ [c]\<rparr> else g);
          g2 = (if \<not> truthy (gtitle g1) \<and> truthy (title (document it))
                then g1\<lparr>gtitle := title (document it)\<rparr> else g1)
      in groupLoop (AList.update parent g2 m) items)"

definition groupByParent :: "'n result list \<Rightarrow> parentGroup list" where
  "groupByParent items = map snd (groupLoop [] items)"

definition isTerminator :: "nat \<Rightarrow> bool" where
  "isTerminator c = (c = 46 \<or> c = 33 \<or> c = 63)"

text \<open>\<open>text.split(/(?<=[.!?])\s+/)\<close>: the separators are the maximal runs of
  whitespace that follow a full stop, an exclamation mark or a question mark.\<close>

function splitSentences :: "jstr \<Rightarrow> jstr list" where
  "splitSentences [] = [[]]"
| "splitSentences (c # cs) =
     (if isTerminator c \<and> cs \<noteq> [] \<and> isWs (hd cs)
      then [c] # splitSentences (dropWhile isWs cs)
      else (case splitSentences cs of [] \<Rightarrow> [[c]] | l # ls \<Rightarrow> (c # l) # ls))"
  by pat_completeness auto
termination
  by (relation "measure length") (auto simp: less_Suc_eq_le length_dropWhile_le)

definition firstNSentences :: "jstr \<Rightarrow> nat \<Rightarrow> jstr" where
  "firstNSentences text n =
     (let parts = filter (\<lambda>p. p \<noteq> []) (splitSentences text)
      in join [32] (take n parts))"

text \<open>\<open>replace(/"/g, "&quot;")\<close>\<close>

definition escapeAttr :: "jstr \<Rightarrow> jstr" where
  "escapeAttr v = concat (map (\<lambda>c. if c = 34 then lit ''&quot;'' else [c]) v)"

definition formatDocument :: "jstr \<Rightarrow> jstr \<Rightarrow> jstr" where
  "formatDocument content citation =
     (let clean = compactWhitespace content in
      if clean = [] then []
      else lit ''<context source='' @ [34] @ escapeAttr citation @ [34] @ lit ''>'' @ [10]
           @ clean @ [10] @ lit ''</context>'')"

section \<open>The pipeline\<close>

text \<open>The body of the loop over the groups in \<open>renderContext\<close>: the text of a group
  after normalising, deduplicating and cutting to four sentences, and the piece
  formatted from it.\<close>

definition normalizedChunks :: "parentGroup \<Rightarrow> jstr list" where
  "normalizedChunks g = filter (\<lambda>c. 0 < length c) (map compactWhitespace (chunks g))"

definition condensedText :: "parentGroup \<Rightarrow> jstr" where
  "condensedText g = firstNSentences (join [32] (dedupeByHash (normalizedChunks g))) 4"

definition groupPiece :: "parentGroup \<Rightarrow> jstr" where
  "groupPiece g =
     (let title = (case gtitle g of None \<Rightarrow> lit ''(untitled)'' | Some t \<Rightarrow> t)
      in formatDocument (condensedText g) title)"

fun buildContexts :: "parentGroup list \<Rightarrow> jstr list" where
  "buildContexts [] = []"
| "buildContexts (g # gs) =
     (let piece = groupPiece g in
      (if 0 < length (trim piece) then [piece] else []) @ buildContexts gs)"

text \<open>The embedding provider returns the list \<open>result.data\<close> or fails; an empty list
  makes \<open>getEmbeddingVector\<close> throw.\<close>

definition getEmbeddingVector :: "(jstr \<Rightarrow> error + 'v list) \<Rightarrow> jstr \<Rightarrow> error + 'v" where
  "getEmbeddingVector embedder text =
     (case embedder text of
        Inl e \<Rightarrow> Inl e
      | Inr data \<Rightarrow> (case data of [] \<Rightarrow> Inl EmbeddingFailed | v # _ \<Rightarrow> Inr v))"

text \<open>
  \<open>renderContext\<close> of the hybrid pipeline. The two providers are parameters; the
  result is paired with the provider calls made, in order. A provider's failure is
  the result \<open>Inl\<close>, as the exception leaves \<open>renderContext\<close>.
\<close>

definition renderContext ::
  "'n numberLiterals \<Rightarrow> ('n::{minus,ord,zero}) options \<Rightarrow> (jstr \<Rightarrow> error + 'v list)
     \<Rightarrow> (jstr \<Rightarrow> 'v \<Rightarrow> int \<Rightarrow> int \<Rightarrow> error + 'n result list)
     \<Rightarrow> jstr \<Rightarrow> 'v call list \<times> (error + jstr)" where
  "renderContext lits opts embedder searcher query =
     (if query = [] then ([], Inr [])
      else
        (case getEmbeddingVector embedder query of
           Inl e \<Rightarrow> ([EmbedCall query], Inl e)
         | Inr qVec \<Rightarrow>
             (let calls = [EmbedCall query,
                           SearchCall query qVec (topPerVariant opts) (kNearestNeighborsCount opts)]
              in case searcher query qVec (topPerVariant opts) (kNearestNeighborsCount opts) of
                   Inl e \<Rightarrow> (calls, Inl e)
                 | Inr ranked \<Rightarrow>
                     if shouldClarify lits opts ranked then (calls, Inr [])
                     else
                       (let picked = limitByParentAndTotal ranked (maxPerParent opts)
                                       (maxTotalAfterFusion opts);
                            grouped = groupByParent picked;
                            contexts = buildContexts grouped
                        in (calls, Inr (stitchWithTokenBudget contexts (maxContextTokens opts)))))))"

text \<open>
  \<open>renderContext\<close> of the vector-only data source (\<open>azureAISearchDataSource.ts\<close>):
  the guard, the embedding call and the search call with the empty query text. What
  follows the search (sorting by score, keeping \<open>maxReturn\<close> results, cleaning and
  formatting them) calls no provider and is the parameter \<open>render\<close>.
\<close>

definition renderContextVectorOnly ::
  "int \<Rightarrow> int \<Rightarrow> (jstr \<Rightarrow> error + 'v list)
     \<Rightarrow> (jstr \<Rightarrow> 'v \<Rightarrow> int \<Rightarrow> int \<Rightarrow> error + 'n result list)
     \<Rightarrow> ('n result list \<Rightarrow> jstr) \<Rightarrow> jstr \<Rightarrow> 'v call list \<times> (error + jstr)" where
  "renderContextVectorOnly topN knn embedder searcher render query =
     (if query = [] \<or> trim query = [] then ([], Inr [])
      else
        (case getEmbeddingVector embedder query of
           Inl e \<Rightarrow> ([EmbedCall query], Inl e)
         | Inr qVec \<Rightarrow>
             (let calls = [EmbedCall query, SearchCall [] qVec topN knn]
              in case searcher [] qVec topN knn of
                   Inl e \<Rightarrow> (calls, Inl e)
                 | Inr results \<Rightarrow> (calls, Inr (render results)))))"

section \<open>The normal form of the normaliser\<close>

text \<open>Predicates for the proofs about \<open>compactWhitespace\<close>: whitespace other than the
  newline; two characters that may stand side by side in a normalised text; the
  characters a normalised text may hold; a text without three newlines in a row; a
  line as \<open>cleanLine\<close> leaves it; and the normal form of a whole text.\<close>

definition wsn :: "nat \<Rightarrow> bool" where
  "wsn c = (isWs c \<and> c \<noteq> 10)"

definition noDoubleSpace :: "nat \<Rightarrow> nat \<Rightarrow> bool" where
  "noDoubleSpace x y = (x \<noteq> 32 \<or> y \<noteq> 32)"

definition adjOk :: "nat \<Rightarrow> nat \<Rightarrow> bool" where
  "adjOk x y = (noDoubleSpace x y \<and> (y = 10 \<longrightarrow> \<not> wsn x) \<and> (x = 10 \<longrightarrow> \<not> wsn y))"

definition okChar :: "nat \<Rightarrow> bool" where
  "okChar c = (\<not> isZeroWidth c \<and> c \<noteq> 13 \<and> c \<noteq> 9)"

definition noTripleNL :: "jstr \<Rightarrow> bool" where
  "noTripleNL s = (\<not> sublist [10, 10, 10] s)"

definition lineTail :: "jstr \<Rightarrow> bool" where
  "lineTail l = (9 \<notin> set l \<and> 10 \<notin> set l \<and> successively noDoubleSpace l \<and> (l = [] \<or> \<not> isWs (last l)))"

definition lineFull :: "jstr \<Rightarrow> bool" where
  "lineFull l = (lineTail l \<and> (l = [] \<or> \<not> isWs (hd l)))"

definition normalForm :: "jstr \<Rightarrow> bool" where
  "normalForm s = ((\<forall>c\<in>set s. okChar c) \<and> successively adjOk s
     \<and> (s = [] \<or> (\<not> isWs (hd s) \<and> \<not> isWs (last s))) \<and> noTripleNL s)"

section \<open>Concrete inputs\<close>

text \<open>
  The examples are evaluated on the reals. Their scores and thresholds are dyadic
  fractions, which the doubles hold and subtract exactly, and the two literals are
  read as the decimals they write; no example depends on how a double rounds them.
\<close>

definition decimalLiterals :: "real numberLiterals" where
  "decimalLiterals = \<lparr>literal_0_12 = 12 / 100, literal_0_01 = 1 / 100\<rparr>"

text \<open>The defaults the constructor merges into the options.\<close>

definition defaultOptions :: "'n numberLiterals \<Rightarrow> 'n options" where
  "defaultOptions lits =
     \<lparr>kNearestNeighborsCount = 16, topPerVariant = 12, maxTotalAfterFusion = 6,
      maxPerParent = 4, minTopScore = Some (literal_0_12 lits),
      minScoreGap = Some (literal_0_01 lits), maxContextTokens = 1200\<rparr>"

text \<open>Options with thresholds of the caller's: \<open>minTopScore = 0.5\<close> and
  \<open>minScoreGap = 0.25\<close>.\<close>

definition tunedOptions :: "real options" where
  "tunedOptions =
     (defaultOptions decimalLiterals)\<lparr>minTopScore := Some (1 / 2), minScoreGap := Some (1 / 4)\<rparr>"

text \<open>A candidate with every field present; its title is its parent's name.\<close>

definition cand :: "string \<Rightarrow> string \<Rightarrow> string \<Rightarrow> 'n \<Rightarrow> 'n result" where
  "cand cid pid txt sc =
     \<lparr>document = \<lparr>chunk_id = Some (lit cid), parent_id = Some (lit pid),
                   title = Some (lit pid), chunk = Some (lit txt)\<rparr>,
      score = Some sc\<rparr>"

text \<open>The block \<open>formatDocument\<close> makes of a clean text and a citation without
  quotation marks.\<close>

definition exampleBlock :: "string \<Rightarrow> string \<Rightarrow> jstr" where
  "exampleBlock citation content =
     lit ''<context source='' @ [34] @ lit citation @ [34] @ lit ''>'' @ [10]
     @ lit content @ [10] @ lit ''</context>''"

section \<open>The confidence gate: results\<close>

text \<open>
  Claim C2. The gate declines exactly when the candidate list is empty, or has fewer
  than three candidates and both the top score is below \<open>minTopScore\<close> and the margin
  of the top score over the second score (0 when there is no second candidate) is
  below \<open>minScoreGap\<close>; with three or more candidates it never declines. The
  thresholds are the configured ones, read from the options, with \<open>0.12\<close> and \<open>0.01\<close>
  for a threshold that is not set; a candidate without a score counts with the score
  0. The statement holds for every type of numbers, whatever its subtraction and
  comparison compute.
\<close>

theorem shouldClarify_iff_spec:
  "shouldClarify lits opts items
     = shouldDecline_spec
         (case minTopScore opts of None \<Rightarrow> literal_0_12 lits | Some m \<Rightarrow> m)
         (case minScoreGap opts of None \<Rightarrow> literal_0_01 lits | Some g \<Rightarrow> g)
         (map (\<lambda>it. case score it of None \<Rightarrow> 0 | Some s \<Rightarrow> s) items)
   \<and> (3 \<le> length items \<longrightarrow> \<not> shouldClarify lits opts items)"
proof (cases items)
  case Nil
  then show ?thesis by (simp add: shouldClarify_def shouldDecline_spec_def)
next
  case (Cons a as)
  note first = this
  show ?thesis
  proof (cases as)
    case Nil
    with first show ?thesis
      by (simp add: shouldClarify_def shouldDecline_spec_def scoreAt_def minTopScoreOr_def
          minScoreGapOr_def Let_def)
  next
    case (Cons b bs)
    with first show ?thesis
      by (cases bs)
        (simp_all add: shouldClarify_def shouldDecline_spec_def scoreAt_def minTopScoreOr_def
          minScoreGapOr_def Let_def)
  qed
qed

text \<open>
  With the thresholds 0.5 and 0.25: three candidates proceed whatever their scores;
  the scores 0.25 and 0.125 decline, which the threshold 0.12 on the top score would
  let proceed; the scores 0.0625 and 0.03125 decline, which the threshold 0.01 on the
  margin would let proceed; the scores 0.5 and 0.125 proceed.
\<close>

theorem shouldClarify_iff_spec_witness:
  "3 \<le> length [cand ''a'' ''p'' ''x'' 0, cand ''b'' ''p'' ''y'' 0, cand ''c'' ''q'' ''z'' 0]
   \<and> \<not> shouldClarify decimalLiterals tunedOptions
         [cand ''a'' ''p'' ''x'' 0, cand ''b'' ''p'' ''y'' 0, cand ''c'' ''q'' ''z'' 0]
   \<and> shouldClarify decimalLiterals tunedOptions
         [cand ''a'' ''p'' ''x'' (1 / 4), cand ''b'' ''p'' ''y'' (1 / 8)]
   \<and> shouldClarify decimalLiterals tunedOptions
         [cand ''a'' ''p'' ''x'' (1 / 16), cand ''b'' ''p'' ''y'' (1 / 32)]
   \<and> \<not> shouldClarify decimalLiterals tunedOptions
         [cand ''a'' ''p'' ''x'' (1 / 2), cand ''b'' ''p'' ''y'' (1 / 8)]"
proof -
  have three: "\<not> shouldClarify decimalLiterals tunedOptions
         [cand ''a'' ''p'' ''x'' 0, cand ''b'' ''p'' ''y'' 0, cand ''c'' ''q'' ''z'' 0]"
    by (rule shouldClarify_iff_spec [THEN conjunct2, rule_format]) simp
  have top: "shouldClarify decimalLiterals tunedOptions
         [cand ''a'' ''p'' ''x'' (1 / 4), cand ''b'' ''p'' ''y'' (1 / 8)]"
    using shouldClarify_iff_spec [of decimalLiterals tunedOptions
        "[cand ''a'' ''p'' ''x'' (1 / 4), cand ''b'' ''p'' ''y'' (1 / 8)]"]
    by (simp add: shouldDecline_spec_def tunedOptions_def defaultOptions_def cand_def)
  have gap: "shouldClarify decimalLiterals tunedOptions
         [cand ''a'' ''p'' ''x'' (1 / 16), cand ''b'' ''p'' ''y'' (1 / 32)]"
    using shouldClarify_iff_spec [of decimalLiterals tunedOptions
        "[cand ''a'' ''p'' ''x'' (1 / 16), cand ''b'' ''p'' ''y'' (1 / 32)]"]
    by (simp add: shouldDecline_spec_def tunedOptions_def defaultOptions_def cand_def)
  have clear: "\<not> shouldClarify decimalLiterals tunedOptions
         [cand ''a'' ''p'' ''x'' (1 / 2), cand ''b'' ''p'' ''y'' (1 / 8)]"
    using shouldClarify_iff_spec [of decimalLiterals tunedOptions
        "[cand ''a'' ''p'' ''x'' (1 / 2), cand ''b'' ''p'' ''y'' (1 / 8)]"]
    by (simp add: shouldDecline_spec_def tunedOptions_def defaultOptions_def cand_def)
  from three top gap clear show ?thesis by simp
qed

text \<open>The default thresholds let the second and the third list proceed: the gate
  reads the thresholds of the options it is given.\<close>

lemma shouldClarify_default_thresholds:
  "\<not> shouldClarify decimalLiterals (defaultOptions decimalLiterals)
       [cand ''a'' ''p'' ''x'' (1 / 4), cand ''b'' ''p'' ''y'' (1 / 8)]
   \<and> \<not> shouldClarify decimalLiterals (defaultOptions decimalLiterals)
       [cand ''a'' ''p'' ''x'' (1 / 16), cand ''b'' ''p'' ''y'' (1 / 32)]"
  by (simp add: shouldClarify_def defaultOptions_def decimalLiterals_def scoreAt_def cand_def
      minTopScoreOr_def minScoreGapOr_def)

text \<open>Options whose thresholds are not set fall back on the literals.\<close>

lemma shouldClarify_unset_thresholds:
  "shouldClarify lits (opts\<lparr>minTopScore := None, minScoreGap := None\<rparr>) [it]
     = ((case score it of None \<Rightarrow> 0 | Some s \<Rightarrow> s) < literal_0_12 lits
        \<and> (case score it of None \<Rightarrow> 0 | Some s \<Rightarrow> s) - 0 < literal_0_01 lits)"
  by (simp add: shouldClarify_def scoreAt_def minTopScoreOr_def minScoreGapOr_def Let_def)

text \<open>Two weak, close candidates under the thresholds 0.5 and 0.25, for the
  pipeline.\<close>

lemma shouldClarify_weak_pair:
  "shouldClarify decimalLiterals tunedOptions
     [cand ''a'' ''p'' ''x'' (1 / 4), cand ''b'' ''p'' ''y'' (1 / 8)]"
  by (simp add: shouldClarify_def tunedOptions_def defaultOptions_def scoreAt_def cand_def
      minTopScoreOr_def minScoreGapOr_def)

section \<open>The diversity selector: results\<close>

text \<open>The selector returns what it had admitted, followed by a subsequence of the
  remaining input.\<close>

lemma limitLoop_subseq:
  "\<exists>ys. limitLoop mpp mt pp out items = out @ ys \<and> subseq ys items"
proof (induction items arbitrary: pp out)
  case Nil
  then show ?case by simp
next
  case (Cons it items)
  let ?n = "case pp (parentKey it) of None \<Rightarrow> 0 | Some k \<Rightarrow> k"
  show ?case
  proof (cases "int ?n < mpp")
    case True
    note admitted = this
    show ?thesis
    proof (cases "mt \<le> int (length (out @ [it]))")
      case True
      with admitted show ?thesis by (auto simp: Let_def intro!: exI[of _ "[it]"])
    next
      case False
      from Cons.IH[of "pp(parentKey it \<mapsto> ?n + 1)" "out @ [it]"]
      obtain ys where
        "limitLoop mpp mt (pp(parentKey it \<mapsto> ?n + 1)) (out @ [it]) items = (out @ [it]) @ ys"
        "subseq ys items"
        by blast
      with admitted False show ?thesis by (auto simp: Let_def intro!: exI[of _ "it # ys"])
    qed
  next
    case False
    from Cons.IH[of pp out] obtain ys where
      "limitLoop mpp mt pp out items = out @ ys" "subseq ys items"
      by blast
    with False show ?thesis by (auto simp: Let_def intro!: exI[of _ ys])
  qed
qed

lemma limitByParentAndTotal_subseq: "subseq (limitByParentAndTotal items mpp mt) items"
  using limitLoop_subseq [of mpp mt Map.empty "[]" items]
  by (auto simp: limitByParentAndTotal_def)

text \<open>The size of the selection is at most \<open>maxTotal\<close>, or 1 when \<open>maxTotal\<close> is
  below 1: the limit is tested after an admission only.\<close>

lemma limitLoop_length:
  "int (length out) < max 1 mt \<Longrightarrow> int (length (limitLoop mpp mt pp out items)) \<le> max 1 mt"
proof (induction items arbitrary: pp out)
  case Nil
  then show ?case by simp
next
  case (Cons it items)
  then show ?case by (auto simp: Let_def)
qed

lemma limitByParentAndTotal_length:
  "int (length (limitByParentAndTotal items mpp mt)) \<le> max 1 mt"
  using limitLoop_length [of "[]" mt mpp Map.empty items]
  by (simp add: limitByParentAndTotal_def)

text \<open>No parent key has more than \<open>maxPerParent\<close> entries in the selection.\<close>

lemma limitLoop_perParent:
  assumes "\<forall>k. (case pp k of None \<Rightarrow> 0 | Some n \<Rightarrow> n) = length (filter (\<lambda>x. parentKey x = k) out)"
    and "\<forall>k. int (length (filter (\<lambda>x. parentKey x = k) out)) \<le> max 0 mpp"
  shows "int (length (filter (\<lambda>x. parentKey x = k) (limitLoop mpp mt pp out items))) \<le> max 0 mpp"
  using assms
proof (induction items arbitrary: pp out)
  case Nil
  then show ?case by simp
next
  case (Cons it items)
  let ?n = "case pp (parentKey it) of None \<Rightarrow> 0 | Some n \<Rightarrow> n"
  let ?out = "out @ [it]"
  let ?pp = "pp(parentKey it \<mapsto> ?n + 1)"
  show ?case
  proof (cases "int ?n < mpp")
    case True
    note admitted = this
    have inv1: "\<forall>k. (case ?pp k of None \<Rightarrow> 0 | Some n \<Rightarrow> n) = length (filter (\<lambda>x. parentKey x = k) ?out)"
      using Cons.prems(1) by auto
    have inv2: "\<forall>k. int (length (filter (\<lambda>x. parentKey x = k) ?out)) \<le> max 0 mpp"
    proof
      fix k
      show "int (length (filter (\<lambda>x. parentKey x = k) ?out)) \<le> max 0 mpp"
      proof (cases "parentKey it = k")
        case True
        have "length (filter (\<lambda>x. parentKey x = k) out) = ?n"
          using Cons.prems(1) True by metis
        with True admitted show ?thesis by simp
      next
        case False
        then show ?thesis using Cons.prems(2) by simp
      qed
    qed
    show ?thesis
    proof (cases "mt \<le> int (length ?out)")
      case True
      with admitted have "limitLoop mpp mt pp out (it # items) = ?out" by (simp add: Let_def)
      then show ?thesis using inv2 by simp
    next
      case False
      with admitted have eq: "limitLoop mpp mt pp out (it # items) = limitLoop mpp mt ?pp ?out items"
        by (simp add: Let_def)
      show ?thesis unfolding eq by (rule Cons.IH[OF inv1 inv2])
    qed
  next
    case False
    then have eq: "limitLoop mpp mt pp out (it # items) = limitLoop mpp mt pp out items"
      by (simp add: Let_def)
    show ?thesis unfolding eq by (rule Cons.IH[OF Cons.prems])
  qed
qed

lemma limitByParentAndTotal_perParent:
  "int (length (filter (\<lambda>x. parentKey x = k) (limitByParentAndTotal items mpp mt))) \<le> max 0 mpp"
  unfolding limitByParentAndTotal_def
  by (rule limitLoop_perParent) simp_all

text \<open>Scenario D of the specification: five candidates of two parents, one per
  parent, at most three in total.\<close>

lemma limitByParentAndTotal_scenario_D:
  "limitByParentAndTotal
     [cand ''1'' ''p'' ''a'' 1, cand ''2'' ''p'' ''b'' 1, cand ''3'' ''q'' ''c'' 1,
      cand ''4'' ''p'' ''d'' 1, cand ''5'' ''q'' ''e'' 1] 1 3
   = [cand ''1'' ''p'' ''a'' 1, cand ''3'' ''q'' ''c'' 1]"
  by (simp add: limitByParentAndTotal_def Let_def parentKey_def cand_def lit_def)

text \<open>
  Claim C3. The selection is a subsequence of the input, holds at most \<open>maxTotal\<close>
  candidates and at most \<open>maxPerParent\<close> of each parent. The lemmas above give the
  order, the bound per parent and the bound \<open>max 1 maxTotal\<close> on the size. With
  \<open>maxTotal = 0\<close> the size bound of the claim fails: the first admissible candidate
  is pushed before the limit is tested, and the selection has one element.
\<close>

theorem limitByParentAndTotal_zero_total:
  "limitByParentAndTotal [cand ''c1'' ''p1'' ''text'' (1 / 2)] 1 0 = [cand ''c1'' ''p1'' ''text'' (1 / 2)]
   \<and> int (length (limitByParentAndTotal [cand ''c1'' ''p1'' ''text'' (1 / 2)] 1 0)) > 0"
  by (simp add: limitByParentAndTotal_def Let_def)

section \<open>The budget stitcher: results\<close>

text \<open>
  Claim C1. The estimated token count of the stitched string is at most the budget.
  The loop counts the tokens of the pieces it keeps, not the newline that \<open>join\<close> puts
  between them: two blocks of the formatter, 36 characters and 9 tokens each, fit the
  budget 18 one by one, and the stitched string has 73 characters, 19 tokens.
\<close>

theorem stitchWithTokenBudget_exceeds_budget:
  "estimateTokens (formatDocument (lit ''abcd'') (lit ''T'')) = 9
   \<and> estimateTokens (formatDocument (lit ''efgh'') (lit ''U'')) = 9
   \<and> estimateTokens
        (stitchWithTokenBudget
           [formatDocument (lit ''abcd'') (lit ''T''), formatDocument (lit ''efgh'') (lit ''U'')] 18)
      = 19"
proof -
  have a: "formatDocument (lit ''abcd'') (lit ''T'')
             = lit ''<context source='' @ [34] @ lit ''T'' @ [34] @ lit ''>'' @ [10]
               @ lit ''abcd'' @ [10] @ lit ''</context>''"
    by (simp add: formatDocument_def compactWhitespace_def lit_def stripZeroWidth_def
        isZeroWidth_def cleanLine_def trim_def dropWhileEnd_def isWs_def isSpTab_def escapeAttr_def)
  have b: "formatDocument (lit ''efgh'') (lit ''U'')
             = lit ''<context source='' @ [34] @ lit ''U'' @ [34] @ lit ''>'' @ [10]
               @ lit ''efgh'' @ [10] @ lit ''</context>''"
    by (simp add: formatDocument_def compactWhitespace_def lit_def stripZeroWidth_def
        isZeroWidth_def cleanLine_def trim_def dropWhileEnd_def isWs_def isSpTab_def escapeAttr_def)
  show ?thesis
    unfolding a b by (simp add: stitchWithTokenBudget_def estimateTokens_def lit_def)
qed

lemma estimateTokens_nonneg: "0 \<le> estimateTokens p"
  by (simp add: estimateTokens_def)

lemma stitchLoop_fitting_prefix:
  "used + sum_list (map estimateTokens pre) \<le> maxTokens \<Longrightarrow>
   stitchLoop maxTokens out used (pre @ ps)
     = stitchLoop maxTokens (out @ pre) (used + sum_list (map estimateTokens pre)) ps"
proof (induction pre arbitrary: out used)
  case Nil
  then show ?case by simp
next
  case (Cons q pre)
  have "0 \<le> sum_list (map estimateTokens pre)"
    by (rule sum_list_nonneg) (auto simp: estimateTokens_nonneg)
  with Cons.prems have fit: "used + estimateTokens q \<le> maxTokens" by simp
  from Cons.prems have "(used + estimateTokens q) + sum_list (map estimateTokens pre) \<le> maxTokens"
    by simp
  from Cons.IH[OF this, of "out @ [q]"] fit show ?case by (simp add: Let_def add.assoc)
qed

lemma stitch_overflow:
  assumes "sum_list (map estimateTokens pre) < maxTokens"
    and "maxTokens < sum_list (map estimateTokens pre) + estimateTokens p"
  shows "stitchWithTokenBudget (pre @ p # rest) maxTokens
           = join [10] (pre @ [trimPiece p ((maxTokens - sum_list (map estimateTokens pre)) * 4)])"
proof -
  let ?used = "sum_list (map estimateTokens pre)"
  have "stitchLoop maxTokens [] 0 (pre @ p # rest) = stitchLoop maxTokens pre ?used (p # rest)"
    using stitchLoop_fitting_prefix [of 0 pre maxTokens "[]" "p # rest"] assms(1) by simp
  also have "\<dots> = pre @ [trimPiece p ((maxTokens - ?used) * 4)]"
    using assms by (simp add: Let_def)
  finally show ?thesis by (simp add: stitchWithTokenBudget_def)
qed

text \<open>Pieces that fit together are all kept whole; the stitched string is their
  join, one newline longer per separator than the characters counted.\<close>

lemma stitchWithTokenBudget_all_fit:
  assumes "sum_list (map estimateTokens pieces) \<le> maxTokens"
  shows "stitchWithTokenBudget pieces maxTokens = join [10] pieces"
  using stitchLoop_fitting_prefix [of 0 pieces maxTokens "[]" "[]"] assms
  by (simp add: stitchWithTokenBudget_def)

lemma indexOf_ge: "- 1 \<le> indexOf pat p"
  by (induction p) (auto simp: Let_def)

lemma lastIndexOf_ge: "- 1 \<le> lastIndexOf pat p"
  by (induction p) (auto simp: Let_def)

lemma lastIndexOf_le: "lastIndexOf pat p \<le> int (length p)"
  by (induction p) (auto simp: Let_def)

lemma slice_prefix: "0 \<le> b \<Longrightarrow> slice 0 b s = take (nat b) s"
  by (auto simp: slice_def Let_def min_def)

lemma slice_parts:
  assumes "- 1 \<le> a" "a < c" "c \<le> int (length p)"
  shows "slice 0 (a + 1) p @ slice (a + 1) c p @ sliceFrom c p = p"
proof -
  let ?a = "nat (a + 1)" and ?c = "nat c"
  have le: "?a \<le> ?c" "?c \<le> length p" using assms by auto
  have h: "slice 0 (a + 1) p = take ?a p" using assms by (simp add: slice_prefix)
  have b: "slice (a + 1) c p = take (?c - ?a) (drop ?a p)"
    using assms by (auto simp: slice_def Let_def min_def nat_diff_distrib)
  have t: "sliceFrom c p = drop ?c p"
    using assms by (auto simp: sliceFrom_def slice_def Let_def min_def)
  have "drop ?c p = drop (?c - ?a) (drop ?a p)" using le by simp
  then have "take (?c - ?a) (drop ?a p) @ drop ?c p = drop ?a p"
    by (simp only: append_take_drop_id)
  then show ?thesis unfolding h b t by simp
qed

lemma lastIndexOf_lastAt: "lastAt (\<lambda>d. d = c) xs (lastIndexOf [c] xs)"
proof (induction xs)
  case Nil
  then show ?case by (simp add: lastAt_def)
next
  case (Cons x xs)
  let ?r = "lastIndexOf [c] xs"
  show ?case
  proof (cases "0 \<le> ?r")
    case True
    with Cons have a: "nat ?r < length xs" "xs ! nat ?r = c"
      "\<forall>i<length xs. nat ?r < i \<longrightarrow> xs ! i \<noteq> c"
      by (auto simp: lastAt_def)
    from True have r: "lastIndexOf [c] (x # xs) = ?r + 1" by (simp add: Let_def)
    from True have n: "nat (?r + 1) = Suc (nat ?r)" by arith
    have "\<forall>i<length (x # xs). Suc (nat ?r) < i \<longrightarrow> (x # xs) ! i \<noteq> c"
      using a(3) by (auto simp: nth_Cons split: nat.splits)
    then show ?thesis unfolding r lastAt_def n using a True by simp
  next
    case False
    with Cons have none: "\<forall>i<length xs. xs ! i \<noteq> c" by (auto simp: lastAt_def)
    show ?thesis
    proof (cases "x = c")
      case True
      with False have "lastIndexOf [c] (x # xs) = 0" by (simp add: Let_def)
      moreover have "\<forall>i<length (x # xs). 0 < i \<longrightarrow> (x # xs) ! i \<noteq> c"
        using none by (auto simp: nth_Cons split: nat.splits)
      ultimately show ?thesis using True by (simp add: lastAt_def)
    next
      case neq: False
      with False have "lastIndexOf [c] (x # xs) = - 1" by (simp add: Let_def)
      moreover have "\<forall>i<length (x # xs). (x # xs) ! i \<noteq> c"
        using none neq by (auto simp: nth_Cons split: nat.splits)
      ultimately show ?thesis by (simp add: lastAt_def)
    qed
  qed
qed

lemma lastAt_max_le:
  assumes "lastAt P xs a" "lastAt Q xs b" "a \<le> b"
  shows "lastAt (\<lambda>c. P c \<or> Q c) xs b"
proof (cases "b = - 1")
  case True
  with assms have "a = - 1" by (auto simp: lastAt_def)
  with True assms show ?thesis by (auto simp: lastAt_def)
next
  case False
  with assms(2) have b: "0 \<le> b" "nat b < length xs" "Q (xs ! nat b)"
    "\<forall>i<length xs. nat b < i \<longrightarrow> \<not> Q (xs ! i)"
    by (auto simp: lastAt_def)
  have "\<not> P (xs ! i)" if "i < length xs" "nat b < i" for i
  proof (cases "a = - 1")
    case True
    with assms(1) that show ?thesis by (auto simp: lastAt_def)
  next
    case False
    with assms(1) have "0 \<le> a" "\<forall>i<length xs. nat a < i \<longrightarrow> \<not> P (xs ! i)"
      by (auto simp: lastAt_def)
    moreover from \<open>a \<le> b\<close> that have "nat a < i" by arith
    ultimately show ?thesis using that by blast
  qed
  with b show ?thesis by (auto simp: lastAt_def)
qed

lemma lastAt_max:
  assumes "lastAt P xs a" "lastAt Q xs b"
  shows "lastAt (\<lambda>c. P c \<or> Q c) xs (max a b)"
proof (cases "a \<le> b")
  case True
  with assms show ?thesis by (simp add: max_def lastAt_max_le)
next
  case False
  then have "b \<le> a" by simp
  from lastAt_max_le[OF assms(2) assms(1) this] have "lastAt (\<lambda>c. Q c \<or> P c) xs a" .
  moreover have "(\<lambda>c. Q c \<or> P c) = (\<lambda>c. P c \<or> Q c)" by auto
  ultimately show ?thesis using False by (simp add: max_def)
qed

lemma lastBreakIndex_lastAt: "lastAt isBreak xs (lastBreakIndex xs)"
proof -
  have "isBreak = (\<lambda>c. (c = 10 \<or> c = 32) \<or> c = 9)"
    by (auto simp: isBreak_def)
  then show ?thesis
    unfolding lastBreakIndex_def
    using lastAt_max [OF lastAt_max [OF lastIndexOf_lastAt [of 10 xs] lastIndexOf_lastAt [of 32 xs]]
        lastIndexOf_lastAt [of 9 xs]]
    by simp
qed

lemma safeTrimToChars_cut:
  assumes "maxChars < int (length s)" "0 < maxChars"
  shows "\<exists>k. cutPosition_spec s maxChars k
           \<and> safeTrimToChars s maxChars = dropWhileEnd isBlank (take k s) @ ellipsis"
proof -
  let ?limit = "nat (maxChars - 1)"
  let ?sl = "take ?limit s"
  let ?b = "lastBreakIndex ?sl"
  have sl: "slice 0 (max 0 (maxChars - 1)) s = ?sl"
    using assms by (simp add: slice_prefix max_def)
  have len: "length ?sl = ?limit" "min ?limit (length s) = ?limit" using assms by auto
  have nth: "\<And>i. i < ?limit \<Longrightarrow> ?sl ! i = s ! i" by simp
  have cmp: "(real_of_int ?b > real_of_int maxChars * (6 / 10)) = (3 * maxChars < 5 * ?b)"
    by (auto simp: field_simps)
  note la = lastBreakIndex_lastAt [of ?sl]
  show ?thesis
  proof (cases "3 * maxChars < 5 * ?b")
    case True
    with assms(2) have pos: "0 \<le> ?b" "?b \<noteq> - 1" by auto
    with la have b: "nat ?b < ?limit" "isBreak (?sl ! nat ?b)"
      "\<forall>i<?limit. nat ?b < i \<longrightarrow> \<not> isBreak (?sl ! i)"
      unfolding lastAt_def len by auto
    have "slice 0 ?b ?sl = take (nat ?b) ?sl"
      using pos(1) by (rule slice_prefix)
    also have "\<dots> = take (min (nat ?b) ?limit) s" by (simp only: take_take)
    also have "min (nat ?b) ?limit = nat ?b" using b(1) by simp
    finally have cut: "slice 0 ?b ?sl = take (nat ?b) s" .
    have "cutPosition_spec s maxChars (nat ?b)"
      unfolding cutPosition_spec_def Let_def len using b True pos nth by auto
    moreover have "safeTrimToChars s maxChars = dropWhileEnd isBlank (take (nat ?b) s) @ ellipsis"
      unfolding safeTrimToChars_def sl Let_def cmp cut using assms True by simp
    ultimately show ?thesis by blast
  next
    case False
    have "5 * int i \<le> 3 * maxChars" if "i < ?limit" "isBreak (s ! i)" for i
    proof -
      from that nth have brk: "isBreak (?sl ! i)" by simp
      with la that(1) have "0 \<le> ?b" "\<not> nat ?b < i"
        unfolding lastAt_def len by auto
      then have "int i \<le> ?b" by arith
      with False show ?thesis by arith
    qed
    then have "cutPosition_spec s maxChars ?limit"
      unfolding cutPosition_spec_def Let_def len by auto
    moreover have "safeTrimToChars s maxChars = dropWhileEnd isBlank (take ?limit s) @ ellipsis"
      unfolding safeTrimToChars_def sl Let_def cmp using assms False by simp
    ultimately show ?thesis by blast
  qed
qed

text \<open>
  What the stitcher does with the first piece that does not fit. When the pieces
  before \<open>p\<close> fit with budget remaining and \<open>p\<close> does not fit, the stitched string is
  those pieces and the trimmed \<open>p\<close>, and no later piece. With \<open>n\<close> the remaining tokens times 4: if \<open>p\<close> holds a \<open>>\<close> and a
  \<open></context>\<close>, the text between the first \<open>>\<close> and the last \<open></context>\<close> is trimmed
  to \<open>n\<close> and put back between the head and the tail of \<open>p\<close>; otherwise \<open>p\<close> itself is
  trimmed. Trimming a text no longer than \<open>n\<close> returns it as it is, with no ellipsis;
  trimming a longer one cuts it at the position \<open>cutPosition_spec\<close> describes, removes
  the blanks before the cut and appends the ellipsis.
\<close>

lemma stitchWithTokenBudget_trims_overflow:
  assumes "sum_list (map estimateTokens pre) < maxTokens"
    and "maxTokens < sum_list (map estimateTokens pre) + estimateTokens p"
  shows "stitchWithTokenBudget (pre @ p # rest) maxTokens
           = join [10] (pre @ [trimPiece p ((maxTokens - sum_list (map estimateTokens pre)) * 4)])
     \<and> (indexOf (lit ''>'') p \<noteq> - 1 \<and> lastIndexOf (lit ''</context>'') p \<noteq> - 1 \<longrightarrow>
          trimPiece p n
            = slice 0 (indexOf (lit ''>'') p + 1) p
              @ safeTrimToChars
                  (slice (indexOf (lit ''>'') p + 1) (lastIndexOf (lit ''</context>'') p) p) n
              @ sliceFrom (lastIndexOf (lit ''</context>'') p) p)
     \<and> (indexOf (lit ''>'') p < lastIndexOf (lit ''</context>'') p \<longrightarrow>
          slice 0 (indexOf (lit ''>'') p + 1) p
            @ slice (indexOf (lit ''>'') p + 1) (lastIndexOf (lit ''</context>'') p) p
            @ sliceFrom (lastIndexOf (lit ''</context>'') p) p
          = p)
     \<and> (indexOf (lit ''>'') p = - 1 \<or> lastIndexOf (lit ''</context>'') p = - 1 \<longrightarrow>
          trimPiece p n = safeTrimToChars p n)
     \<and> (int (length s) \<le> n \<longrightarrow> safeTrimToChars s n = s)
     \<and> (n < int (length s) \<and> 0 < n \<longrightarrow>
          (\<exists>k. cutPosition_spec s n k
             \<and> safeTrimToChars s n = dropWhileEnd isBlank (take k s) @ ellipsis))"
proof (intro conjI impI)
  show "stitchWithTokenBudget (pre @ p # rest) maxTokens
           = join [10] (pre @ [trimPiece p ((maxTokens - sum_list (map estimateTokens pre)) * 4)])"
    using assms by (rule stitch_overflow)
next
  assume "indexOf (lit ''>'') p \<noteq> - 1 \<and> lastIndexOf (lit ''</context>'') p \<noteq> - 1"
  then show "trimPiece p n
            = slice 0 (indexOf (lit ''>'') p + 1) p
              @ safeTrimToChars
                  (slice (indexOf (lit ''>'') p + 1) (lastIndexOf (lit ''</context>'') p) p) n
              @ sliceFrom (lastIndexOf (lit ''</context>'') p) p"
    by (simp add: trimPiece_def Let_def)
next
  assume "indexOf (lit ''>'') p < lastIndexOf (lit ''</context>'') p"
  then show "slice 0 (indexOf (lit ''>'') p + 1) p
            @ slice (indexOf (lit ''>'') p + 1) (lastIndexOf (lit ''</context>'') p) p
            @ sliceFrom (lastIndexOf (lit ''</context>'') p) p
          = p"
    using indexOf_ge lastIndexOf_le by (intro slice_parts)
next
  assume "indexOf (lit ''>'') p = - 1 \<or> lastIndexOf (lit ''</context>'') p = - 1"
  then show "trimPiece p n = safeTrimToChars p n"
    by (auto simp: trimPiece_def Let_def)
next
  assume "int (length s) \<le> n"
  then show "safeTrimToChars s n = s"
    by (simp add: safeTrimToChars_def)
next
  assume "n < int (length s) \<and> 0 < n"
  then show "\<exists>k. cutPosition_spec s n k
             \<and> safeTrimToChars s n = dropWhileEnd isBlank (take k s) @ ellipsis"
    by (intro safeTrimToChars_cut) simp_all
qed

text \<open>Scenario F: a block of 11 tokens under the budget 4 is cut after \<open>efgh\<close>, inside
  its wrapper, and the block after it is not considered.\<close>

lemma stitchWithTokenBudget_trims_overflow_example:
  "sum_list (map estimateTokens []) < 4
   \<and> 4 < sum_list (map estimateTokens []) + estimateTokens (exampleBlock ''T'' ''abcd efgh ijkl mnop'')
   \<and> stitchWithTokenBudget
        ([] @ exampleBlock ''T'' ''abcd efgh ijkl mnop'' # [exampleBlock ''U'' ''next'']) 4
      = lit ''<context source='' @ [34] @ lit ''T'' @ [34] @ lit ''>'' @ [10]
        @ lit ''abcd efgh'' @ ellipsis @ lit ''</context>''"
proof -
  have a: "sum_list (map estimateTokens []) < 4"
    by simp
  have b: "4 < sum_list (map estimateTokens []) + estimateTokens (exampleBlock ''T'' ''abcd efgh ijkl mnop'')"
    by (simp add: estimateTokens_def exampleBlock_def lit_def)
  have t: "trimPiece (exampleBlock ''T'' ''abcd efgh ijkl mnop'') 16
      = lit ''<context source='' @ [34] @ lit ''T'' @ [34] @ lit ''>'' @ [10]
        @ lit ''abcd efgh'' @ ellipsis @ lit ''</context>''"
    by (simp add: exampleBlock_def lit_def trimPiece_def safeTrimToChars_def slice_def
        sliceFrom_def lastBreakIndex_def dropWhileEnd_def isBlank_def ellipsis_def Let_def)
  from stitchWithTokenBudget_trims_overflow [OF a b, of "[exampleBlock ''U'' ''next'']"]
  have "stitchWithTokenBudget
        ([] @ exampleBlock ''T'' ''abcd efgh ijkl mnop'' # [exampleBlock ''U'' ''next'']) 4
      = join [10] ([] @ [trimPiece (exampleBlock ''T'' ''abcd efgh ijkl mnop'')
          ((4 - sum_list (map estimateTokens [])) * 4)])"
    by blast
  then have "stitchWithTokenBudget
        ([] @ exampleBlock ''T'' ''abcd efgh ijkl mnop'' # [exampleBlock ''U'' ''next'']) 4
      = lit ''<context source='' @ [34] @ lit ''T'' @ [34] @ lit ''>'' @ [10]
        @ lit ''abcd efgh'' @ ellipsis @ lit ''</context>''"
    by (simp add: t)
  with a b show ?thesis by blast
qed

text \<open>A piece without the wrapper that does not fit is longer than the allowance:
  it is always cut and gets the ellipsis.\<close>

lemma trimPiece_raw_piece_is_cut:
  assumes "indexOf (lit ''>'') p = - 1 \<or> lastIndexOf (lit ''</context>'') p = - 1"
    and "0 < remaining" and "remaining < estimateTokens p"
  shows "\<exists>k. cutPosition_spec p (remaining * 4) k
           \<and> trimPiece p (remaining * 4) = dropWhileEnd isBlank (take k p) @ ellipsis"
proof -
  from assms(3) have "remaining * 4 < int (length p)"
    by (simp add: estimateTokens_def)
  moreover from assms(2) have "0 < remaining * 4"
    by simp
  ultimately have "\<exists>k. cutPosition_spec p (remaining * 4) k
           \<and> safeTrimToChars p (remaining * 4) = dropWhileEnd isBlank (take k p) @ ellipsis"
    by (rule safeTrimToChars_cut)
  moreover from assms(1) have "trimPiece p (remaining * 4) = safeTrimToChars p (remaining * 4)"
    by (auto simp: trimPiece_def Let_def)
  ultimately show ?thesis by simp
qed

text \<open>
  Claim C5. A block that does not fit in the remaining budget, with budget remaining,
  is trimmed to the remaining tokens times 4 characters and gets the ellipsis; a
  wrapped block has its inner text trimmed and is wrapped again. The allowance is
  given to the inner text alone, and the length of the wrapper is not taken from
  it: the block of 36 characters and 9 tokens under the budget 8 has an inner text
  of 6 characters, within the allowance 32, and is emitted whole, 9 tokens long,
  with no ellipsis.
\<close>

theorem stitchWithTokenBudget_keeps_overflowing_block:
  "estimateTokens (exampleBlock ''T'' ''abcd'') = 9
   \<and> stitchWithTokenBudget [exampleBlock ''T'' ''abcd'', exampleBlock ''U'' ''efgh''] 8
       = exampleBlock ''T'' ''abcd''
   \<and> 8230 \<notin> set (stitchWithTokenBudget [exampleBlock ''T'' ''abcd'', exampleBlock ''U'' ''efgh''] 8)
   \<and> estimateTokens
        (stitchWithTokenBudget [exampleBlock ''T'' ''abcd'', exampleBlock ''U'' ''efgh''] 8) = 9"
  by (simp add: stitchWithTokenBudget_def estimateTokens_def exampleBlock_def lit_def
      trimPiece_def safeTrimToChars_def slice_def sliceFrom_def Let_def)

section \<open>The deduper: results\<close>

lemma dedupeLoop_dedupeByKey:
  "dedupeLoop seen out cs
     = out @ dedupeByKey_spec hashString (filter (\<lambda>c. hashString c \<notin> seen) cs)"
proof (induction cs arbitrary: seen out)
  case Nil
  then show ?case by simp
next
  case (Cons c cs)
  show ?case
  proof (cases "hashString c \<in> seen")
    case True
    then show ?thesis using Cons.IH[of seen out] by simp
  next
    case False
    have "filter (\<lambda>d. hashString d \<notin> insert (hashString c) seen) cs
          = filter (\<lambda>d. hashString d \<noteq> hashString c) (filter (\<lambda>d. hashString d \<notin> seen) cs)"
      by (induction cs) auto
    with False show ?thesis
      using Cons.IH[of "insert (hashString c) seen" "out @ [c]"] by (simp add: Let_def)
  qed
qed

lemma dedupeByKey_spec_inj:
  "inj_on f (set cs) \<Longrightarrow> dedupeByKey_spec f cs = dedupeExact_spec cs"
proof (induction cs rule: dedupeExact_spec.induct)
  case 1
  then show ?case by simp
next
  case (2 c cs)
  have eq: "filter (\<lambda>d. f d \<noteq> f c) cs = filter (\<lambda>d. d \<noteq> c) cs"
    using "2.prems" by (intro filter_cong) (auto simp: inj_on_def)
  have "inj_on f (set (filter (\<lambda>d. d \<noteq> c) cs))"
    using "2.prems" by (auto simp: inj_on_def)
  with "2.IH" eq show ?case by simp
qed

lemma buildContexts_append:
  "buildContexts (gs1 @ gs2) = buildContexts gs1 @ buildContexts gs2"
  by (induction gs1) (auto simp: Let_def)

lemma buildContexts_concat: "buildContexts gs = concat (map (\<lambda>g. buildContexts [g]) gs)"
  by (induction gs) (auto simp: Let_def)

text \<open>The hashes of three short texts: \<open>Aa\<close> and \<open>BB\<close> collide.\<close>

lemma hashInt_Aa: "hashInt (lit ''Aa'') = 2112"
  by (simp add: hashInt_def lit_def)

lemma hashInt_BB: "hashInt (lit ''BB'') = 2112"
  by (simp add: hashInt_def lit_def)

lemma hashString_Aa: "hashString (lit ''Aa'') = lit ''840''"
  by (simp add: hashString_def hashInt_Aa toString16_def hexDigit_def toHex.simps)
    (simp add: lit_def)

lemma hashString_BB: "hashString (lit ''BB'') = lit ''840''"
  by (simp add: hashString_def hashInt_BB toString16_def hexDigit_def toHex.simps)
    (simp add: lit_def)

lemma hashString_b: "hashString (lit ''b'') = lit ''62''"
  by (simp add: hashString_def hashInt_def toString16_def hexDigit_def toHex.simps lit_def)

text \<open>
  Claim C4, as stated: within a group the deduper removes exactly the later exact
  repeats of a text. It fails where two different texts have the same hash: \<open>BB\<close> is
  no repeat of \<open>Aa\<close>, and is removed.
\<close>

theorem dedupeByHash_collision_counterexample:
  "dedupeByHash [lit ''Aa'', lit ''BB''] = [lit ''Aa'']
   \<and> dedupeExact_spec [lit ''Aa'', lit ''BB''] = [lit ''Aa'', lit ''BB'']
   \<and> dedupeByHash [lit ''Aa'', lit ''BB''] \<noteq> dedupeExact_spec [lit ''Aa'', lit ''BB'']"
proof -
  have a: "dedupeByHash [lit ''Aa'', lit ''BB''] = [lit ''Aa'']"
    by (simp add: dedupeByHash_def hashString_Aa hashString_BB)
  have b: "dedupeExact_spec [lit ''Aa'', lit ''BB''] = [lit ''Aa'', lit ''BB'']"
    by (simp add: lit_def)
  show ?thesis unfolding a b by simp
qed

text \<open>
  Claim C4, amended. Within a group the deduper keeps the first fragment of each hash
  and removes every later fragment with the hash of an earlier one, in order; where
  no two different fragments of the group have the same hash, that is exactly the
  removal of the later exact repeats. The blocks of a list of groups are the blocks
  of each group alone, concatenated: no fragment is compared with one of another
  group.
\<close>

theorem dedupeByHash_first_of_each_hash:
  "dedupeByHash cs = dedupeByKey_spec hashString cs
   \<and> (inj_on hashString (set cs) \<longrightarrow> dedupeByHash cs = dedupeExact_spec cs)
   \<and> buildContexts gs = concat (map (\<lambda>g. buildContexts [g]) gs)"
proof -
  have "dedupeByHash cs = dedupeByKey_spec hashString cs"
    by (simp add: dedupeByHash_def dedupeLoop_dedupeByKey)
  moreover have "inj_on hashString (set cs) \<longrightarrow> dedupeByHash cs = dedupeExact_spec cs"
    by (simp add: dedupeByHash_def dedupeLoop_dedupeByKey dedupeByKey_spec_inj)
  ultimately show ?thesis using buildContexts_concat by blast
qed

theorem dedupeByHash_first_of_each_hash_witness:
  "inj_on hashString (set [lit ''Aa'', lit ''b'', lit ''Aa''])
   \<and> dedupeByHash [lit ''Aa'', lit ''b'', lit ''Aa''] = [lit ''Aa'', lit ''b'']"
proof -
  have inj: "inj_on hashString (set [lit ''Aa'', lit ''b'', lit ''Aa''])"
    unfolding inj_on_def using hashString_Aa hashString_b by (auto simp: lit_def)
  have ex: "dedupeExact_spec [lit ''Aa'', lit ''b'', lit ''Aa''] = [lit ''Aa'', lit ''b'']"
    by (simp add: lit_def)
  have r: "dedupeByHash [lit ''Aa'', lit ''b'', lit ''Aa'']
             = dedupeExact_spec [lit ''Aa'', lit ''b'', lit ''Aa'']"
    using dedupeByHash_first_of_each_hash [of "[lit ''Aa'', lit ''b'', lit ''Aa'']" "[]"] inj
    by blast
  from inj r[unfolded ex] show ?thesis by (rule conjI)
qed

text \<open>The same text under two parents stays in both blocks.\<close>

lemma buildContexts_cross_group_repeat:
  "buildContexts
     [\<lparr>gtitle = Some (lit ''p''), chunks = [lit ''same'']\<rparr>,
      \<lparr>gtitle = Some (lit ''q''), chunks = [lit ''same'']\<rparr>]
   = [lit ''<context source='' @ [34] @ lit ''p'' @ [34] @ lit ''>'' @ [10] @ lit ''same''
        @ [10] @ lit ''</context>'',
      lit ''<context source='' @ [34] @ lit ''q'' @ [34] @ lit ''>'' @ [10] @ lit ''same''
        @ [10] @ lit ''</context>'']"
proof -
  have cw: "compactWhitespace (lit ''same'') = lit ''same''"
    by (simp add: compactWhitespace_def lit_def stripZeroWidth_def isZeroWidth_def
        cleanLine_def trim_def dropWhileEnd_def isWs_def isSpTab_def)
  have fs: "firstNSentences (lit ''same'') 4 = lit ''same''"
    by (simp add: firstNSentences_def lit_def isTerminator_def)
  have ne: "lit ''same'' \<noteq> []"
    by (simp add: lit_def)
  have ct: "condensedText \<lparr>gtitle = t, chunks = [lit ''same'']\<rparr> = lit ''same''" for t
    using ne by (simp add: condensedText_def normalizedChunks_def cw dedupeByHash_def fs)
  have tr: "trim (lit ''<context source='' @ x) \<noteq> []" for x
    by (simp add: trim_def dropWhileEnd_def lit_def isWs_def dropWhile_append)
  show ?thesis
    using ne tr
    by (simp add: groupPiece_def ct formatDocument_def cw escapeAttr_def Let_def)
      (simp add: lit_def)
qed

section \<open>The pipeline: results\<close>

text \<open>
  Claim C8. When the search returns no candidate, or the gate declines, the hybrid
  \<open>renderContext\<close> completes with the empty string, after its two provider calls: the
  result is a value, not an error.
\<close>

theorem renderContext_declined_is_empty:
  assumes "query \<noteq> []"
    and "getEmbeddingVector embedder query = Inr v"
    and "searcher query v (topPerVariant opts) (kNearestNeighborsCount opts) = Inr ranked"
    and "ranked = [] \<or> shouldClarify lits opts ranked"
  shows "renderContext lits opts embedder searcher query
           = ([EmbedCall query,
               SearchCall query v (topPerVariant opts) (kNearestNeighborsCount opts)], Inr [])"
proof -
  have "shouldClarify lits opts []"
    by (simp add: shouldClarify_def)
  with assms(4) have "shouldClarify lits opts ranked"
    by blast
  with assms(1-3) show ?thesis
    by (simp add: renderContext_def Let_def)
qed

theorem renderContext_declined_is_empty_witness:
  "lit ''q'' \<noteq> []
   \<and> getEmbeddingVector (\<lambda>q. Inr [0 :: nat]) (lit ''q'') = Inr 0
   \<and> renderContext decimalLiterals (defaultOptions decimalLiterals)
        (\<lambda>q. Inr [0 :: nat]) (\<lambda>q v t k. Inr []) (lit ''q'')
       = ([EmbedCall (lit ''q''), SearchCall (lit ''q'') 0 12 16], Inr [])"
proof -
  have q: "lit ''q'' \<noteq> []"
    by (simp add: lit_def)
  have e: "getEmbeddingVector (\<lambda>q. Inr [0 :: nat]) (lit ''q'') = Inr 0"
    by (simp add: getEmbeddingVector_def)
  have r: "renderContext decimalLiterals (defaultOptions decimalLiterals)
        (\<lambda>q. Inr [0 :: nat]) (\<lambda>q v t k. Inr []) (lit ''q'')
       = ([EmbedCall (lit ''q''),
           SearchCall (lit ''q'') 0 (topPerVariant (defaultOptions decimalLiterals))
             (kNearestNeighborsCount (defaultOptions decimalLiterals))], Inr [])"
    by (rule renderContext_declined_is_empty [OF q e, where ranked = "[]"]) simp_all
  from q e r show ?thesis
    by (simp add: defaultOptions_def)
qed

text \<open>Two weak, close candidates through the pipeline: the gate declines and the
  result is the empty string.\<close>

lemma renderContext_weak_pair:
  "snd (renderContext decimalLiterals tunedOptions (\<lambda>q. Inr [0 :: nat])
          (\<lambda>q v t k. Inr [cand ''a'' ''p'' ''x'' (1 / 4), cand ''b'' ''p'' ''y'' (1 / 8)])
          (lit ''q''))
   = Inr []"
  using shouldClarify_weak_pair
  by (simp add: renderContext_def getEmbeddingVector_def lit_def Let_def)

text \<open>A group whose fragments all normalise to the empty string has the empty
  condensed text.\<close>

lemma firstNSentences_empty: "firstNSentences [] n = []"
  by (cases n) (simp_all add: firstNSentences_def)

lemma compactWhitespace_empty: "compactWhitespace [] = []"
  by (simp add: compactWhitespace_def)

lemma condensedText_all_blank:
  assumes "\<forall>c\<in>set (chunks g). compactWhitespace c = []"
  shows "condensedText g = []"
proof -
  from assms have "normalizedChunks g = []"
    by (auto simp: normalizedChunks_def filter_empty_conv)
  then show ?thesis
    by (simp add: condensedText_def dedupeByHash_def firstNSentences_empty)
qed

text \<open>
  A group whose condensed text is empty after normalisation contributes no block:
  the blocks of a list of groups are those of the other groups. That is so for a
  group whose fragments all normalise to the empty string.
\<close>

lemma buildContexts_drops_empty_group:
  "(compactWhitespace (condensedText g) = []
      \<longrightarrow> buildContexts (gs1 @ g # gs2) = buildContexts gs1 @ buildContexts gs2)
   \<and> ((\<forall>c\<in>set (chunks g). compactWhitespace c = [])
      \<longrightarrow> compactWhitespace (condensedText g) = [])"
proof (intro conjI impI)
  assume "compactWhitespace (condensedText g) = []"
  then have "groupPiece g = []"
    by (simp add: groupPiece_def formatDocument_def)
  then have "buildContexts (g # gs2) = buildContexts gs2"
    by (simp add: trim_def dropWhileEnd_def)
  then show "buildContexts (gs1 @ g # gs2) = buildContexts gs1 @ buildContexts gs2"
    by (simp add: buildContexts_append)
next
  assume "\<forall>c\<in>set (chunks g). compactWhitespace c = []"
  then show "compactWhitespace (condensedText g) = []"
    by (simp add: condensedText_all_blank compactWhitespace_empty)
qed

text \<open>A group whose only fragments are blanks and a zero-width space, between two
  other groups.\<close>

lemma buildContexts_drops_blank_group_example:
  "compactWhitespace [32, 9] = [] \<and> compactWhitespace [8203, 10] = []
   \<and> buildContexts
        [\<lparr>gtitle = Some (lit ''p''), chunks = [lit ''one'']\<rparr>,
         \<lparr>gtitle = Some (lit ''w''), chunks = [[32, 9], [8203, 10]]\<rparr>,
         \<lparr>gtitle = Some (lit ''q''), chunks = [lit ''two'']\<rparr>]
      = buildContexts [\<lparr>gtitle = Some (lit ''p''), chunks = [lit ''one'']\<rparr>]
        @ buildContexts [\<lparr>gtitle = Some (lit ''q''), chunks = [lit ''two'']\<rparr>]"
proof -
  let ?w = "\<lparr>gtitle = Some (lit ''w''), chunks = [[32, 9], [8203, 10]]\<rparr>"
  have b1: "compactWhitespace [32, 9] = []"
    by (simp add: compactWhitespace_def stripZeroWidth_def isZeroWidth_def cleanLine_def
        trim_def dropWhileEnd_def isWs_def isSpTab_def)
  have b2: "compactWhitespace [8203, 10] = []"
    by (simp add: compactWhitespace_def stripZeroWidth_def isZeroWidth_def cleanLine_def
        trim_def dropWhileEnd_def isWs_def isSpTab_def)
  have blank: "\<forall>c\<in>set (chunks ?w). compactWhitespace c = []"
    using b1 b2 by simp
  from buildContexts_drops_empty_group [of ?w
      "[\<lparr>gtitle = Some (lit ''p''), chunks = [lit ''one'']\<rparr>]"
      "[\<lparr>gtitle = Some (lit ''q''), chunks = [lit ''two'']\<rparr>]"] blank
  have "buildContexts
        ([\<lparr>gtitle = Some (lit ''p''), chunks = [lit ''one'']\<rparr>] @ ?w
          # [\<lparr>gtitle = Some (lit ''q''), chunks = [lit ''two'']\<rparr>])
      = buildContexts [\<lparr>gtitle = Some (lit ''p''), chunks = [lit ''one'']\<rparr>]
        @ buildContexts [\<lparr>gtitle = Some (lit ''q''), chunks = [lit ''two'']\<rparr>]"
    by blast
  with b1 b2 show ?thesis
    by (simp only: append_Cons append_Nil simp_thms)
qed

text \<open>
  Claim C9. A group whose condensed text is empty after normalisation and trimming,
  as one whose fragments hold only whitespace or control characters, contributes no
  block. For fragments of whitespace and of the zero-width class that is proved
  above. A fragment that is the control character U+0001 is left as it is by the
  normaliser, the condensed text of its group is that character, and the group gets a
  block around it.
\<close>

theorem buildContexts_control_character_group:
  "compactWhitespace [1] = [1]
   \<and> condensedText \<lparr>gtitle = Some (lit ''w''), chunks = [[1]]\<rparr> = [1]
   \<and> buildContexts [\<lparr>gtitle = Some (lit ''w''), chunks = [[1]]\<rparr>]
       = [lit ''<context source='' @ [34] @ lit ''w'' @ [34] @ lit ''>'' @ [10, 1, 10]
          @ lit ''</context>'']"
proof -
  have cw: "compactWhitespace [1] = [1]"
    by (simp add: compactWhitespace_def stripZeroWidth_def isZeroWidth_def cleanLine_def
        trim_def dropWhileEnd_def isWs_def isSpTab_def)
  have fs: "firstNSentences [1] 4 = [1]"
    by (simp add: firstNSentences_def isTerminator_def)
  have cw': "compactWhitespace [Suc 0] = [Suc 0]" and fs': "firstNSentences [Suc 0] 4 = [Suc 0]"
    using cw fs by simp_all
  have ct: "condensedText \<lparr>gtitle = Some (lit ''w''), chunks = [[1]]\<rparr> = [1]"
    by (simp add: condensedText_def normalizedChunks_def cw' dedupeByHash_def fs')
  have tr: "trim (lit ''<context source='' @ x) \<noteq> []" for x
    by (simp add: trim_def dropWhileEnd_def lit_def isWs_def dropWhile_append)
  have "buildContexts [\<lparr>gtitle = Some (lit ''w''), chunks = [[1]]\<rparr>]
       = [lit ''<context source='' @ [34] @ lit ''w'' @ [34] @ lit ''>'' @ [10, 1, 10]
          @ lit ''</context>'']"
    using tr ct [simplified]
    by (simp add: groupPiece_def formatDocument_def cw' escapeAttr_def Let_def)
      (simp add: lit_def)
  with cw ct show ?thesis by (simp only: simp_thms)
qed

text \<open>
  Claim C10. For the empty query the hybrid \<open>renderContext\<close> returns the empty string
  and calls neither provider; the vector-only \<open>renderContext\<close> does so for every query
  that is empty after trimming.
\<close>

theorem renderContext_empty_query_no_calls:
  "renderContext lits opts embedder searcher [] = ([], Inr [])
   \<and> (trim query = []
      \<longrightarrow> renderContextVectorOnly topN knn embedder searcher render query = ([], Inr []))"
  by (simp add: renderContext_def renderContextVectorOnly_def)

theorem renderContext_empty_query_no_calls_witness:
  "trim [32, 9, 10, 32] = []
   \<and> renderContextVectorOnly 20 20 (\<lambda>q. Inr [0 :: nat])
        (\<lambda>q v t k. Inr ([] :: real result list)) (\<lambda>rs. lit ''x'') [32, 9, 10, 32]
      = ([], Inr [])"
proof -
  have t: "trim [32, 9, 10, 32] = []"
    by (simp add: trim_def dropWhileEnd_def isWs_def)
  with renderContext_empty_query_no_calls [of decimalLiterals "defaultOptions decimalLiterals"
      "\<lambda>q. Inr [0 :: nat]"
      "\<lambda>q v t k. Inr []" "[32, 9, 10, 32]" 20 20 "\<lambda>rs. lit ''x''"]
  show ?thesis by blast
qed

text \<open>In the hybrid pipeline a query of blanks is embedded and searched.\<close>

lemma renderContext_blank_query_calls:
  "fst (renderContext decimalLiterals (defaultOptions decimalLiterals)
          (\<lambda>q. Inr [0 :: nat]) (\<lambda>q v t k. Inr []) [32])
   = [EmbedCall [32], SearchCall [32] 0 12 16]"
  by (simp add: renderContext_def getEmbeddingVector_def defaultOptions_def shouldClarify_def)

section \<open>The normaliser: results\<close>

subsection \<open>trim\<close>

lemma dropWhileEnd_Nil [simp]: "dropWhileEnd P [] = []"
  by (simp add: dropWhileEnd_def)

lemma dropWhileEnd_id: "xs = [] \<or> \<not> P (last xs) \<Longrightarrow> dropWhileEnd P xs = xs"
  by (cases xs rule: rev_cases) (auto simp: dropWhileEnd_def)

lemma dropWhileEnd_last: "dropWhileEnd P xs \<noteq> [] \<Longrightarrow> \<not> P (last (dropWhileEnd P xs))"
  using hd_dropWhile [of P "rev xs"] by (simp add: dropWhileEnd_def last_rev)

lemma dropWhileEnd_prefix: "\<exists>q. xs = dropWhileEnd P xs @ q"
proof -
  have "rev xs = takeWhile P (rev xs) @ dropWhile P (rev xs)" by simp
  then have "xs = rev (dropWhile P (rev xs)) @ rev (takeWhile P (rev xs))"
    by (metis rev_append rev_rev_ident)
  then show ?thesis unfolding dropWhileEnd_def by blast
qed

lemma dropWhileEnd_hd: "dropWhileEnd P xs \<noteq> [] \<Longrightarrow> hd (dropWhileEnd P xs) = hd xs"
  using dropWhileEnd_prefix [of xs P] by (metis hd_append2)

lemma trim_decomp: "\<exists>p q. s = p @ trim s @ q"
proof -
  obtain q where q: "dropWhile isWs s = trim s @ q"
    using dropWhileEnd_prefix [of "dropWhile isWs s" isWs] by (auto simp: trim_def)
  have "s = takeWhile isWs s @ dropWhile isWs s" by simp
  with q show ?thesis by metis
qed

lemma trim_ends: "trim s \<noteq> [] \<Longrightarrow> \<not> isWs (hd (trim s)) \<and> \<not> isWs (last (trim s))"
proof
  assume ne: "trim s \<noteq> []"
  then have "dropWhile isWs s \<noteq> []" unfolding trim_def by (metis dropWhileEnd_Nil)
  then have "\<not> isWs (hd (dropWhile isWs s))" by (rule hd_dropWhile)
  moreover have "hd (trim s) = hd (dropWhile isWs s)"
    using ne unfolding trim_def by (rule dropWhileEnd_hd)
  ultimately show "\<not> isWs (hd (trim s))" by simp
  show "\<not> isWs (last (trim s))"
    using ne unfolding trim_def by (rule dropWhileEnd_last)
qed

lemma trim_id: "s = [] \<or> (\<not> isWs (hd s) \<and> \<not> isWs (last s)) \<Longrightarrow> trim s = s"
proof -
  assume a: "s = [] \<or> (\<not> isWs (hd s) \<and> \<not> isWs (last s))"
  then have "dropWhile isWs s = s" by (auto simp: dropWhile_eq_self_iff)
  with a show ?thesis by (auto simp: trim_def intro: dropWhileEnd_id)
qed

lemma trim_Nil [simp]: "trim [] = []"
  by (simp add: trim_def)

lemma successively_infix: "successively R (p @ t @ q) \<Longrightarrow> successively R t"
  by (simp add: successively_append_iff)

lemma trim_successively: "successively R s \<Longrightarrow> successively R (trim s)"
  using trim_decomp [of s] successively_infix by metis

lemma trim_set: "set (trim s) \<subseteq> set s"
  using trim_decomp [of s] by (metis Un_upper1 Un_upper2 set_append subset_trans)

subsection \<open>collapseSpaces\<close>

lemma collapseSpaces_set: "set (collapseSpaces l) \<subseteq> insert 32 (set l)"
  by (induction l rule: collapseSpaces.induct) (auto dest: set_dropWhileD)

lemma collapseSpaces_no_tab: "9 \<notin> set (collapseSpaces l)"
  by (induction l rule: collapseSpaces.induct) (auto simp: isSpTab_def)

lemma collapseSpaces_hd: "collapseSpaces l \<noteq> [] \<Longrightarrow> hd (collapseSpaces l) = (if isSpTab (hd l) then 32 else hd l)"
  by (cases l) auto

lemma collapseSpaces_noDouble: "successively noDoubleSpace (collapseSpaces l)"
proof (induction l rule: collapseSpaces.induct)
  case 1
  then show ?case by simp
next
  case (2 c cs)
  show ?case
  proof (cases "isSpTab c")
    case True
    let ?r = "dropWhile isSpTab cs"
    have "collapseSpaces ?r = [] \<or> hd (collapseSpaces ?r) \<noteq> 32"
    proof (cases ?r)
      case Nil
      then have "collapseSpaces ?r = collapseSpaces []" by (rule arg_cong)
      then show ?thesis by simp
    next
      case (Cons d ds)
      with hd_dropWhile [of isSpTab cs] have "\<not> isSpTab d" by simp
      with Cons show ?thesis by (simp add: isSpTab_def)
    qed
    with True 2 show ?thesis by (auto simp: successively_Cons noDoubleSpace_def)
  next
    case False
    then have "c \<noteq> 32" by (simp add: isSpTab_def)
    with False 2 show ?thesis by (auto simp: successively_Cons noDoubleSpace_def)
  qed
qed

lemma collapseSpaces_id:
  "9 \<notin> set l \<Longrightarrow> successively noDoubleSpace l \<Longrightarrow> collapseSpaces l = l"
proof (induction l rule: collapseSpaces.induct)
  case 1
  then show ?case by simp
next
  case (2 c cs)
  show ?case
  proof (cases "isSpTab c")
    case True
    with 2 have c: "c = 32" by (auto simp: isSpTab_def)
    from 2(4) c have "cs = [] \<or> hd cs \<noteq> 32" by (auto simp: successively_Cons noDoubleSpace_def)
    with 2(3) have "cs = [] \<or> \<not> isSpTab (hd cs)" by (cases cs) (auto simp: isSpTab_def)
    then have "dropWhile isSpTab cs = cs" by (simp add: dropWhile_eq_self_iff)
    moreover from 2(3,4) have "9 \<notin> set cs" "successively noDoubleSpace cs"
      by (auto simp: successively_Cons)
    ultimately show ?thesis using True c 2(1) by simp
  next
    case False
    moreover from 2(3,4) have "9 \<notin> set cs" "successively noDoubleSpace cs"
      by (auto simp: successively_Cons)
    ultimately show ?thesis using 2(2) by simp
  qed
qed

subsection \<open>collapseBlankLines\<close>

lemma all_NL_replicate: "set run \<subseteq> {10::nat} \<Longrightarrow> run = replicate (length run) 10"
  by (induction run) auto

lemma collapseBlankLines_NL:
  obtains run rest where
    "cs = run @ rest" "set run \<subseteq> {10}" "rest = [] \<or> hd rest \<noteq> 10"
    "rest = dropWhile (\<lambda>d. d = 10) cs"
    "collapseBlankLines (10 # cs)
       = (if 2 \<le> length run then [10, 10] else 10 # run) @ collapseBlankLines rest"
proof -
  let ?run = "takeWhile (\<lambda>d. d = 10) cs" and ?rest = "dropWhile (\<lambda>d. d = 10) cs"
  have "cs = ?run @ ?rest" by simp
  moreover have "set ?run \<subseteq> {10}" by (auto dest: set_takeWhileD)
  moreover have "?rest = [] \<or> hd ?rest \<noteq> 10"
    using hd_dropWhile [of "\<lambda>d. d = 10" cs] by blast
  moreover have "collapseBlankLines (10 # cs)
       = (if 2 \<le> length ?run then [10, 10] else 10 # ?run) @ collapseBlankLines ?rest"
    by (simp add: Let_def)
  ultimately show ?thesis using that by blast
qed

lemma collapseBlankLines_set: "set (collapseBlankLines s) \<subseteq> set s"
proof (induction s rule: collapseBlankLines.induct)
  case 1
  then show ?case by simp
next
  case (2 c cs)
  show ?case
  proof (cases "c = 10")
    case True
    obtain run rest where d: "cs = run @ rest" "set run \<subseteq> {10}"
      "rest = dropWhile (\<lambda>d. d = 10) cs"
      "collapseBlankLines (10 # cs)
         = (if 2 \<le> length run then [10, 10] else 10 # run) @ collapseBlankLines rest"
      by (rule collapseBlankLines_NL)
    have "set (collapseBlankLines rest) \<subseteq> set rest"
      using 2(1)[OF True refl refl] unfolding d(3) .
    then have "set (collapseBlankLines rest) \<subseteq> set cs" using d(1) by auto
    then show ?thesis unfolding True d(4) using d(1,2) by auto
  next
    case False
    with 2(2) show ?thesis by auto
  qed
qed

lemma collapseBlankLines_Nil_iff [simp]: "collapseBlankLines s = [] \<longleftrightarrow> s = []"
  by (cases s) (auto simp: Let_def)

lemma collapseBlankLines_hd: "hd (collapseBlankLines s) = hd s"
  by (cases s) (auto simp: Let_def)

lemma collapseBlankLines_last: "last (collapseBlankLines s) = last s"
proof (induction s rule: collapseBlankLines.induct)
  case 1
  then show ?case by simp
next
  case (2 c cs)
  show ?case
  proof (cases "c = 10")
    case True
    obtain run rest where d: "cs = run @ rest" "set run \<subseteq> {10}"
      "rest = dropWhile (\<lambda>d. d = 10) cs"
      "collapseBlankLines (10 # cs)
         = (if 2 \<le> length run then [10, 10] else 10 # run) @ collapseBlankLines rest"
      by (rule collapseBlankLines_NL)
    have ih: "last (collapseBlankLines rest) = last rest"
      using 2(1)[OF True refl refl] unfolding d(3) .
    have l1: "last (10 # run) = 10" using d(2) by (cases run rule: rev_cases) auto
    show ?thesis
    proof (cases "rest = []")
      case True
      then have "last (10 # cs) = 10" using d(1) l1 by simp
      moreover have "last (collapseBlankLines (10 # cs)) = 10"
        unfolding d(4) using True l1 by simp
      ultimately show ?thesis using \<open>c = 10\<close> by simp
    next
      case False
      then have "last (10 # cs) = last rest" using d(1) by simp
      moreover have "last (collapseBlankLines (10 # cs)) = last rest"
        unfolding d(4) using False ih by simp
      ultimately show ?thesis using \<open>c = 10\<close> by simp
    qed
  next
    case False
    then have step: "collapseBlankLines (c # cs) = c # collapseBlankLines cs" by simp
    show ?thesis
    proof (cases "cs = []")
      case True
      then show ?thesis unfolding step by simp
    next
      case nonempty: False
      then have "collapseBlankLines cs \<noteq> []" by simp
      then have "last (c # collapseBlankLines cs) = last (collapseBlankLines cs)" by simp
      also have "\<dots> = last cs" using 2(2)[OF False] .
      also have "\<dots> = last (c # cs)" using nonempty by simp
      finally show ?thesis unfolding step .
    qed
  qed
qed

lemma collapseBlankLines_successively:
  assumes R: "R 10 10"
  shows "successively R s \<Longrightarrow> successively R (collapseBlankLines s)"
proof (induction s rule: collapseBlankLines.induct)
  case 1
  then show ?case by simp
next
  case (2 c cs)
  show ?case
  proof (cases "c = 10")
    case True
    obtain run rest where d: "cs = run @ rest" "set run \<subseteq> {10}"
      "rest = dropWhile (\<lambda>d. d = 10) cs"
      "collapseBlankLines (10 # cs)
         = (if 2 \<le> length run then [10, 10] else 10 # run) @ collapseBlankLines rest"
      by (rule collapseBlankLines_NL)
    let ?pre = "if 2 \<le> length run then [10, 10] else 10 # run"
    have l1: "last (10 # run) = 10" using d(2) by (cases run rule: rev_cases) auto
    have "successively R ((10 # run) @ rest)" using "2.prems" True d(1) by simp
    then have sr: "successively R rest" and bd: "rest = [] \<or> R 10 (hd rest)"
      unfolding successively_append_iff using l1 by auto
    have ih: "successively R (collapseBlankLines rest)"
      using 2(1)[OF True refl refl] sr unfolding d(3) by blast
    have allnl: "successively R xs" if "set xs \<subseteq> {10}" for xs
      using that R by (induction xs rule: induct_list012) auto
    have "set ?pre \<subseteq> {10}" using d(2) by auto
    then have pre1: "successively R ?pre" by (rule allnl)
    have pre: "last ?pre = 10" "?pre \<noteq> []" using l1 by auto
    have "successively R (?pre @ collapseBlankLines rest)"
      unfolding successively_append_iff
      using pre1 pre ih bd by (simp add: collapseBlankLines_hd)
    then show ?thesis unfolding True d(4) .
  next
    case False
    with 2 show ?thesis by (auto simp: successively_Cons collapseBlankLines_hd)
  qed
qed

lemma noTripleNL_Cons: "noTripleNL (c # cs) \<longleftrightarrow> \<not> prefix [10, 10, 10] (c # cs) \<and> noTripleNL cs"
  by (simp add: noTripleNL_def sublist_Cons_right)

lemma noTripleNL_Nil [simp]: "noTripleNL []"
  by (simp add: noTripleNL_def)

lemma noTripleNL_sublist: "noTripleNL s \<Longrightarrow> sublist t s \<Longrightarrow> noTripleNL t"
  unfolding noTripleNL_def using sublist_order.order_trans by blast

lemma collapseBlankLines_noTriple: "noTripleNL (collapseBlankLines s)"
proof (induction s rule: collapseBlankLines.induct)
  case 1
  then show ?case by simp
next
  case (2 c cs)
  show ?case
  proof (cases "c = 10")
    case True
    obtain run rest where d: "cs = run @ rest" "set run \<subseteq> {10}" "rest = [] \<or> hd rest \<noteq> 10"
      "rest = dropWhile (\<lambda>d. d = 10) cs"
      "collapseBlankLines (10 # cs)
         = (if 2 \<le> length run then [10, 10] else 10 # run) @ collapseBlankLines rest"
      by (rule collapseBlankLines_NL)
    let ?y = "collapseBlankLines rest"
    have ih: "noTripleNL ?y" using 2(1)[OF True refl refl] unfolding d(4) .
    have y: "?y = [] \<or> hd ?y \<noteq> 10" using d(3) by (auto simp: collapseBlankLines_hd)
    have a: "noTripleNL (10 # ?y)" using ih y by (cases ?y) (auto simp: noTripleNL_Cons)
    have b: "noTripleNL (10 # 10 # ?y)" using ih y by (cases ?y) (auto simp: noTripleNL_Cons)
    have "run = [] \<or> run = [10]" if "\<not> 2 \<le> length run"
    proof (cases run)
      case Nil
      then show ?thesis by simp
    next
      case (Cons r rs)
      with that d(2) show ?thesis by (cases rs) auto
    qed
    then show ?thesis unfolding True d(5) using a b by auto
  next
    case False
    with 2(2) show ?thesis by (auto simp: noTripleNL_Cons)
  qed
qed

lemma collapseBlankLines_id: "noTripleNL s \<Longrightarrow> collapseBlankLines s = s"
proof (induction s rule: collapseBlankLines.induct)
  case 1
  then show ?case by simp
next
  case (2 c cs)
  show ?case
  proof (cases "c = 10")
    case True
    obtain run rest where d: "cs = run @ rest" "set run \<subseteq> {10}"
      "rest = dropWhile (\<lambda>d. d = 10) cs"
      "collapseBlankLines (10 # cs)
         = (if 2 \<le> length run then [10, 10] else 10 # run) @ collapseBlankLines rest"
      by (rule collapseBlankLines_NL)
    have short: "\<not> 2 \<le> length run"
    proof
      assume "2 \<le> length run"
      then obtain a b r where "run = a # b # r"
        by (cases run; cases "tl run") auto
      with d(2) have "run = 10 # 10 # r" by auto
      with d(1) have "prefix [10, 10, 10] (10 # cs)" by simp
      with 2(3) True show False by (simp add: noTripleNL_Cons)
    qed
    have "sublist rest (c # cs)" unfolding d(1) by (simp add: sublist_Cons_right)
    with 2(3) have "noTripleNL rest" by (rule noTripleNL_sublist)
    then have "collapseBlankLines rest = rest" using 2(1)[OF True refl refl] unfolding d(3) by simp
    with short show ?thesis unfolding True d(4) using d(1) by simp
  next
    case False
    with 2 show ?thesis by (auto simp: noTripleNL_Cons)
  qed
qed

lemma isWs_wsn: "isWs c \<longleftrightarrow> wsn c \<or> c = 10"
  by (auto simp: wsn_def isWs_def)

subsection \<open>split and join\<close>

lemma splitNL_nonempty [simp]: "splitNL s \<noteq> []"
  by (induction s) (auto split: list.splits)

lemma join_Cons_Cons: "join sep ((c # l) # ls) = c # join sep (l # ls)"
  by (cases ls) auto

lemma join_Nil_Cons: "ls \<noteq> [] \<Longrightarrow> join sep ([] # ls) = sep @ join sep ls"
  by (cases ls) auto

lemma join_splitNL: "join [10] (splitNL s) = s"
proof (induction s)
  case Nil
  then show ?case by simp
next
  case (Cons c cs)
  show ?case
  proof (cases "c = 10")
    case True
    with Cons show ?thesis by (simp add: join_Nil_Cons)
  next
    case False
    obtain l ls where sp: "splitNL cs = l # ls" by (cases "splitNL cs") auto
    with False Cons show ?thesis by (simp add: join_Cons_Cons)
  qed
qed

lemma splitNL_first_empty: "splitNL cs = [] # ls \<Longrightarrow> cs = [] \<or> hd cs = 10"
  by (cases cs) (auto split: if_splits list.splits)

lemma splitNL_set: "l \<in> set (splitNL s) \<Longrightarrow> set l \<subseteq> set s \<and> 10 \<notin> set l"
proof (induction s arbitrary: l)
  case Nil
  then show ?case by simp
next
  case (Cons c cs)
  obtain m ms where sp: "splitNL cs = m # ms" by (cases "splitNL cs") auto
  have m: "set m \<subseteq> set cs \<and> 10 \<notin> set m" using Cons.IH[of m] sp by simp
  have ms: "\<And>k. k \<in> set ms \<Longrightarrow> set k \<subseteq> set cs \<and> 10 \<notin> set k" using Cons.IH sp by simp
  show ?case
  proof (cases "c = 10")
    case True
    with Cons.prems sp m ms show ?thesis by auto
  next
    case False
    with Cons.prems sp have "l = c # m \<or> l \<in> set ms" by auto
    with False m ms show ?thesis by auto
  qed
qed

lemma splitNL_lines:
  assumes "9 \<notin> set s" "successively adjOk s" "s = [] \<or> \<not> wsn (last s)" "splitNL s = l # ls"
  shows "lineTail l \<and> (l \<noteq> [] \<longrightarrow> s \<noteq> [] \<and> hd l = hd s) \<and> (\<forall>m\<in>set ls. lineFull m)"
  using assms
proof (induction s arbitrary: l ls)
  case Nil
  then show ?case by (simp add: lineTail_def)
next
  case (Cons c cs)
  obtain l' ls' where sp: "splitNL cs = l' # ls'" by (cases "splitNL cs") auto
  have p1: "9 \<notin> set cs" using Cons.prems(1) by simp
  have p2: "successively adjOk cs" using Cons.prems(2) by (auto simp: successively_Cons)
  have p3: "cs = [] \<or> \<not> wsn (last cs)" using Cons.prems(3) by auto
  have adj: "cs \<noteq> [] \<Longrightarrow> adjOk c (hd cs)" using Cons.prems(2) by (auto simp: successively_Cons)
  from Cons.IH[OF p1 p2 p3 sp]
  have ih: "lineTail l'" "l' \<noteq> [] \<Longrightarrow> cs \<noteq> [] \<and> hd l' = hd cs" "\<forall>m\<in>set ls'. lineFull m"
    by auto
  show ?case
  proof (cases "c = 10")
    case True
    with Cons.prems(4) sp have l: "l = []" and ls: "ls = l' # ls'" by auto
    have "l' = [] \<or> \<not> isWs (hd l')"
    proof (cases "l' = []")
      case True
      then show ?thesis by simp
    next
      case False
      with ih(2) have ne: "cs \<noteq> []" and hd: "hd l' = hd cs" by auto
      from adj[OF ne] \<open>c = 10\<close> have "\<not> wsn (hd cs)" by (simp add: adjOk_def)
      moreover have "hd l' \<noteq> 10" using ih(1) False by (cases l') (auto simp: lineTail_def)
      ultimately show ?thesis using hd by (simp add: isWs_wsn)
    qed
    with ih(1,3) have "\<forall>m\<in>set ls. lineFull m" unfolding ls by (simp add: lineFull_def)
    then show ?thesis using l by (simp add: lineTail_def)
  next
    case False
    with Cons.prems(4) sp have l: "l = c # l'" and ls: "ls = ls'" by auto
    have c9: "c \<noteq> 9" using Cons.prems(1) by simp
    have nd: "l' = [] \<or> noDoubleSpace c (hd l')"
    proof (cases "l' = []")
      case True
      then show ?thesis by simp
    next
      case False
      with ih(2) have "cs \<noteq> []" "hd l' = hd cs" by auto
      with adj show ?thesis by (simp add: adjOk_def)
    qed
    have lst: "\<not> isWs (last (c # l'))"
    proof (cases "l' = []")
      case True
      have "\<not> wsn c"
      proof (cases "cs = []")
        case True
        with Cons.prems(3) show ?thesis by simp
      next
        case False
        with splitNL_first_empty sp \<open>l' = []\<close> have "hd cs = 10" by blast
        with adj[OF False] show ?thesis by (simp add: adjOk_def)
      qed
      with \<open>c \<noteq> 10\<close> True show ?thesis by (simp add: isWs_wsn)
    next
      case False
      with ih(1) show ?thesis by (simp add: lineTail_def)
    qed
    have "lineTail (c # l')"
      using ih(1) c9 False nd lst by (auto simp: lineTail_def successively_Cons)
    with ih(3) l ls show ?thesis by simp
  qed
qed

subsection \<open>Lines\<close>

lemma cleanLine_id: "lineFull l \<Longrightarrow> cleanLine l = l"
proof -
  assume f: "lineFull l"
  then have "collapseSpaces l = l"
    by (intro collapseSpaces_id) (auto simp: lineFull_def lineTail_def)
  moreover have "trim l = l"
    using f by (intro trim_id) (auto simp: lineFull_def lineTail_def)
  ultimately show ?thesis by (simp add: cleanLine_def)
qed

lemma cleanLine_set: "set (cleanLine l) \<subseteq> insert 32 (set l)"
  unfolding cleanLine_def using trim_set collapseSpaces_set by blast

lemma cleanLine_lineFull: "10 \<notin> set l \<Longrightarrow> lineFull (cleanLine l)"
proof -
  assume nl: "10 \<notin> set l"
  let ?r = "cleanLine l"
  have "set ?r \<subseteq> set (collapseSpaces l)" unfolding cleanLine_def by (rule trim_set)
  then have "9 \<notin> set ?r" using collapseSpaces_no_tab by blast
  moreover have "10 \<notin> set ?r" using cleanLine_set [of l] nl by auto
  moreover have "successively noDoubleSpace ?r"
    unfolding cleanLine_def by (rule trim_successively) (rule collapseSpaces_noDouble)
  moreover have "?r = [] \<or> (\<not> isWs (hd ?r) \<and> \<not> isWs (last ?r))"
    unfolding cleanLine_def using trim_ends by blast
  ultimately show ?thesis by (auto simp: lineFull_def lineTail_def)
qed

lemma lineFull_adjOk: "lineFull l \<Longrightarrow> successively adjOk l"
proof -
  assume "lineFull l"
  then have "successively noDoubleSpace l" "10 \<notin> set l"
    by (auto simp: lineFull_def lineTail_def)
  then show ?thesis
    by (rule_tac successively_mono [of noDoubleSpace]) (auto simp: adjOk_def)
qed

lemma join_set: "set (join [10] ls) \<subseteq> insert 10 (\<Union> (set ` set ls))"
  by (induction ls rule: induct_list012) auto

lemma join_lines:
  assumes "ls \<noteq> []" "\<forall>m\<in>set ls. lineFull m"
  shows "successively adjOk (join [10] ls)
     \<and> (join [10] ls = [] \<or> (\<not> wsn (hd (join [10] ls)) \<and> \<not> wsn (last (join [10] ls))))"
  using assms
proof (induction ls rule: induct_list012)
  case 1
  then show ?case by simp
next
  case (2 x)
  then have "lineFull x" by simp
  then show ?case using lineFull_adjOk [of x]
    by (auto simp: lineFull_def lineTail_def isWs_wsn)
next
  case (3 x y zs)
  let ?J = "join [10] (y # zs)"
  have x: "lineFull x" using 3(4) by simp
  have ih: "successively adjOk ?J" "?J = [] \<or> (\<not> wsn (hd ?J) \<and> \<not> wsn (last ?J))"
    using 3(2) 3(4) by auto
  have w10: "\<not> wsn 10" by (simp add: wsn_def)
  have a: "successively adjOk (10 # ?J)"
    using ih w10 by (auto simp: successively_Cons adjOk_def noDoubleSpace_def)
  have b: "x = [] \<or> adjOk (last x) 10"
    using x by (auto simp: lineFull_def lineTail_def adjOk_def noDoubleSpace_def isWs_wsn)
  have s: "successively adjOk (x @ 10 # ?J)"
    unfolding successively_append_iff using lineFull_adjOk[OF x] a b by simp
  have h: "\<not> wsn (hd (x @ 10 # ?J))"
    using x w10 by (cases x) (auto simp: lineFull_def isWs_wsn)
  have l: "\<not> wsn (last (x @ 10 # ?J))"
    using ih(2) w10 by auto
  show ?case using s h l by simp
qed

subsection \<open>Characters\<close>

lemma normalizeEOL_no_CR: "13 \<notin> set (normalizeEOL s)"
  by (induction s rule: normalizeEOL.induct) simp_all

lemma normalizeEOL_subset: "set (normalizeEOL s) \<subseteq> insert 10 (set s)"
  by (induction s rule: normalizeEOL.induct) auto

lemma normalizeEOL_set: "c \<in> set (normalizeEOL s) \<Longrightarrow> c \<noteq> 13 \<and> (c \<in> set s \<or> c = 10)"
  using normalizeEOL_no_CR [of s] normalizeEOL_subset [of s] by auto

lemma normalizeEOL_id: "13 \<notin> set s \<Longrightarrow> normalizeEOL s = s"
  by (induction s rule: normalizeEOL.induct) auto

lemma stripZeroWidth_id: "\<forall>c\<in>set s. \<not> isZeroWidth c \<Longrightarrow> stripZeroWidth s = s"
  by (simp add: stripZeroWidth_def filter_id_conv)

lemma okChar_lines:
  assumes "c \<in> set (join [10] (map cleanLine (splitNL (normalizeEOL (stripZeroWidth s)))))"
  shows "okChar c"
proof -
  let ?t = "normalizeEOL (stripZeroWidth s)"
  have zw: "\<not> isZeroWidth 10" "\<not> isZeroWidth 32" by (simp_all add: isZeroWidth_def)
  have t: "d \<noteq> 13 \<and> \<not> isZeroWidth d" if "d \<in> set ?t" for d
    using normalizeEOL_set[OF that] zw by (auto simp: stripZeroWidth_def)
  from assms join_set have "c = 10 \<or> (\<exists>l\<in>set (splitNL ?t). c \<in> set (cleanLine l))"
    by fastforce
  then show ?thesis
  proof
    assume "c = 10"
    then show ?thesis using zw by (simp add: okChar_def)
  next
    assume "\<exists>l\<in>set (splitNL ?t). c \<in> set (cleanLine l)"
    then obtain l where l: "l \<in> set (splitNL ?t)" "c \<in> set (cleanLine l)" by blast
    from l(1) have nl: "10 \<notin> set l" and sub: "set l \<subseteq> set ?t" using splitNL_set by auto
    have "lineFull (cleanLine l)" using nl by (rule cleanLine_lineFull)
    then have "c \<noteq> 9" using l(2) by (auto simp: lineFull_def lineTail_def)
    moreover have "c = 32 \<or> c \<in> set l" using l(2) cleanLine_set by auto
    then have "c \<noteq> 13 \<and> \<not> isZeroWidth c" using sub t zw by auto
    ultimately show ?thesis by (simp add: okChar_def)
  qed
qed

subsection \<open>The normal form\<close>

lemma compactWhitespace_normalForm: "normalForm (compactWhitespace s)"
proof (cases "s = []")
  case True
  then show ?thesis by (simp add: compactWhitespace_def normalForm_def)
next
  case False
  let ?t = "normalizeEOL (stripZeroWidth s)"
  let ?ls = "map cleanLine (splitNL ?t)"
  let ?u = "join [10] ?ls"
  let ?v = "collapseBlankLines ?u"
  have out: "compactWhitespace s = trim ?v" using False by (simp add: compactWhitespace_def)
  have full: "\<forall>m\<in>set ?ls. lineFull m"
    using splitNL_set cleanLine_lineFull by auto
  have u: "successively adjOk ?u"
    using join_lines[of ?ls] full by simp
  have a1010: "adjOk 10 10" by (simp add: adjOk_def noDoubleSpace_def wsn_def)
  have v: "successively adjOk ?v" using a1010 u by (rule collapseBlankLines_successively)
  have chars: "\<forall>c\<in>set (trim ?v). okChar c"
    using trim_set[of ?v] collapseBlankLines_set[of ?u] okChar_lines[of _ s] by blast
  have "successively adjOk (trim ?v)" using v by (rule trim_successively)
  moreover have "trim ?v = [] \<or> (\<not> isWs (hd (trim ?v)) \<and> \<not> isWs (last (trim ?v)))"
    using trim_ends by blast
  moreover have "noTripleNL (trim ?v)"
    using collapseBlankLines_noTriple[of ?u] trim_decomp[of ?v]
    by (metis noTripleNL_sublist sublist_appendI)
  ultimately show ?thesis unfolding out normalForm_def using chars by blast
qed

lemma compactWhitespace_fixed: "normalForm s \<Longrightarrow> compactWhitespace s = s"
proof (cases "s = []")
  case True
  then show ?thesis by (simp add: compactWhitespace_def)
next
  case False
  assume nf: "normalForm s"
  then have chars: "\<forall>c\<in>set s. okChar c" and adj: "successively adjOk s"
    and ends: "\<not> isWs (hd s)" "\<not> isWs (last s)" and no3: "noTripleNL s"
    using False by (auto simp: normalForm_def)
  have z: "stripZeroWidth s = s" using chars by (simp add: stripZeroWidth_id okChar_def)
  have e: "normalizeEOL s = s" using chars by (intro normalizeEOL_id) (auto simp: okChar_def)
  obtain l ls where sp: "splitNL s = l # ls" by (cases "splitNL s") auto
  have n9: "9 \<notin> set s" using chars by (auto simp: okChar_def)
  have lw: "s = [] \<or> \<not> wsn (last s)" using ends by (simp add: isWs_wsn)
  from splitNL_lines[OF n9 adj lw sp]
  have lt: "lineTail l" and hd: "l \<noteq> [] \<Longrightarrow> hd l = hd s" and rest: "\<forall>m\<in>set ls. lineFull m"
    by auto
  have "lineFull l" using lt hd ends by (auto simp: lineFull_def)
  with rest have "map cleanLine (splitNL s) = splitNL s"
    unfolding sp by (auto simp: cleanLine_id intro: map_idI)
  then have j: "join [10] (map cleanLine (splitNL s)) = s" by (simp add: join_splitNL)
  have c: "collapseBlankLines s = s" using no3 by (rule collapseBlankLines_id)
  have t: "trim s = s" using ends by (simp add: trim_id)
  show ?thesis using False by (simp add: compactWhitespace_def z e j c t)
qed


text \<open>What the normal form says of every output: no zero-width character of the
  class, no carriage return and no tab; every line is one \<open>cleanLine\<close> leaves as it
  is (single spaces, trimmed edges); no three newlines in a row; trimmed ends.\<close>

lemma compactWhitespace_chars:
  "c \<in> set (compactWhitespace s) \<Longrightarrow> \<not> isZeroWidth c \<and> c \<noteq> 13 \<and> c \<noteq> 9"
  using compactWhitespace_normalForm [of s] by (auto simp: normalForm_def okChar_def)

lemma compactWhitespace_lines_clean:
  "l \<in> set (splitNL (compactWhitespace s)) \<Longrightarrow> cleanLine l = l"
proof -
  let ?s = "compactWhitespace s"
  assume l: "l \<in> set (splitNL ?s)"
  show ?thesis
  proof (cases "?s = []")
    case True
    with l show ?thesis by (simp add: cleanLine_def)
  next
    case False
    have nf: "normalForm ?s" by (rule compactWhitespace_normalForm)
    then have n9: "9 \<notin> set ?s" and adj: "successively adjOk ?s"
      and ends: "\<not> isWs (hd ?s)" "\<not> isWs (last ?s)"
      using False by (auto simp: normalForm_def okChar_def)
    obtain m ms where sp: "splitNL ?s = m # ms" by (cases "splitNL ?s") auto
    have lw: "?s = [] \<or> \<not> wsn (last ?s)" using ends by (simp add: isWs_wsn)
    from splitNL_lines[OF n9 adj lw sp]
    have lt: "lineTail m" and hd: "m \<noteq> [] \<Longrightarrow> hd m = hd ?s" and rest: "\<forall>k\<in>set ms. lineFull k"
      by auto
    have "lineFull m" using lt hd ends by (auto simp: lineFull_def)
    with rest l sp have "lineFull l" by auto
    then show ?thesis by (rule cleanLine_id)
  qed
qed

lemma compactWhitespace_no_blank_run: "\<not> sublist [10, 10, 10] (compactWhitespace s)"
  using compactWhitespace_normalForm [of s] by (simp add: normalForm_def noTripleNL_def)

lemma compactWhitespace_trimmed: "trim (compactWhitespace s) = compactWhitespace s"
  using compactWhitespace_normalForm [of s] by (intro trim_id) (auto simp: normalForm_def)

text \<open>
  Claim C7. The normaliser is idempotent: applied to its own output it returns that
  output.
\<close>

theorem compactWhitespace_idempotent:
  "compactWhitespace (compactWhitespace s) = compactWhitespace s"
  by (rule compactWhitespace_fixed) (rule compactWhitespace_normalForm)


text \<open>
  Claim C6. The output of the normaliser has every zero-width and control character
  stripped, one form of line ending, single spaces, trimmed lines and no run of
  blank lines. The first replacement removes the six code points of its class and
  no other: the control character U+0001 between two letters stays in the output.
\<close>

theorem compactWhitespace_keeps_control_character:
  "compactWhitespace (lit ''a'' @ [1] @ lit ''b'') = lit ''a'' @ [1] @ lit ''b''
   \<and> 1 \<in> set (compactWhitespace (lit ''a'' @ [1] @ lit ''b''))"
  by (simp add: compactWhitespace_def lit_def stripZeroWidth_def isZeroWidth_def cleanLine_def
      trim_def dropWhileEnd_def isWs_def isSpTab_def)

end
